theory Spec2Isabelle
  imports Main "HOL-Library.Word"
begin

section \<open>The LRU cache of \<^verbatim>\<open>lru/lru.go\<close>\<close>

text \<open>
  The Go package keeps a doubly linked list of elements (\<^verbatim>\<open>container/list\<close>), a map from
  keys to list elements, a running byte count and an optional eviction callback.

  \<^item> \<^verbatim>\<open>int64\<close> is a 64-bit word read in two's complement; \<^verbatim>\<open>int\<close> is taken to be 64 bits
    wide as well (the gc compiler on amd64 and arm64), so \<^verbatim>\<open>int64(a + b)\<close> is word addition.
    Addition and subtraction wrap, comparison is the signed one.
  \<^item> A \<^verbatim>\<open>*list.Element\<close> is an address. The list is the sequence of its elements' addresses,
    front first; the entry an element points to is read from a store indexed by address.
    Go pointers never dangle, so the store is total.
  \<^item> The callback is arbitrary Go code. It is modelled as a function that reads the cache
    as it stands when the callback is called, gets the key and the value, and changes
    the part of the program state outside the cache (\<open>world\<close>). A callback that calls
    back into the cache is outside the model.
\<close>

type_synonym int64 = "64 word"

text \<open>The interface \<^verbatim>\<open>Value\<close>: some payload together with what its \<^verbatim>\<open>Len()\<close> reports.\<close>

datatype Value = Value (payload: string) (Len: int64)

record entry =
  key :: string
  val :: Value

type_synonym addr = nat

record store =
  maxBytes :: int64
  nbytes :: int64
  ll :: "addr list"
  elems :: "addr \<Rightarrow> entry"
  cache :: "string \<rightharpoonup> addr"

record 'w Cache = store +
  OnEvicted :: "(store \<Rightarrow> string \<Rightarrow> Value \<Rightarrow> 'w \<Rightarrow> 'w) option"
  world :: 'w

subsection \<open>The operations of \<^verbatim>\<open>container/list\<close> that the cache uses\<close>

definition Back :: "addr list \<Rightarrow> addr option" where
  "Back l = (if l = [] then None else Some (last l))"

definition MoveToFront :: "addr \<Rightarrow> addr list \<Rightarrow> addr list" where
  "MoveToFront e l = (if e \<in> set l then e # remove1 e l else l)"

definition Remove :: "addr \<Rightarrow> addr list \<Rightarrow> addr list" where
  "Remove e l = remove1 e l"

text \<open>A new element gets an address that no element of the list has.\<close>

definition newElement :: "addr list \<Rightarrow> addr" where
  "newElement l = Suc (fold max l 0)"

definition PushFront :: "addr \<Rightarrow> addr list \<Rightarrow> addr list" where
  "PushFront e l = e # l"

subsection \<open>The cache\<close>

definition nil_entry :: entry where
  "nil_entry = \<lparr>key = [], val = Value [] 0\<rparr>"

definition New :: "int64 \<Rightarrow> (store \<Rightarrow> string \<Rightarrow> Value \<Rightarrow> 'w \<Rightarrow> 'w) option \<Rightarrow> 'w \<Rightarrow> 'w Cache" where
  "New mb onEvicted w =
     \<lparr>maxBytes = mb, nbytes = 0, ll = [], elems = (\<lambda>_. nil_entry), cache = Map.empty,
      OnEvicted = onEvicted, world = w\<rparr>"

text \<open>\<^verbatim>\<open>Get\<close> returns the cache after the call, the value (\<open>None\<close> is Go's nil) and \<^verbatim>\<open>ok\<close>.\<close>

definition Get :: "'w Cache \<Rightarrow> string \<Rightarrow> 'w Cache \<times> Value option \<times> bool" where
  "Get c k =
     (case cache c k of
        Some ele \<Rightarrow>
          (let c1 = c\<lparr>ll := MoveToFront ele (ll c)\<rparr>;
               kv = elems c1 ele
           in (c1, Some (val kv), True))
      | None \<Rightarrow> (c, None, False))"

text \<open>The bytes one entry counts for: \<^verbatim>\<open>int64(len(kv.key) + kv.value.Len())\<close>.\<close>

definition entry_bytes :: "entry \<Rightarrow> int64" where
  "entry_bytes kv = of_nat (length (key kv)) + Len (val kv)"

definition RemoveOldest :: "'w Cache \<Rightarrow> 'w Cache" where
  "RemoveOldest c =
     (case Back (ll c) of
        None \<Rightarrow> c
      | Some ele \<Rightarrow>
          (let kv = elems c ele;
               c1 = c\<lparr>ll := Remove ele (ll c)\<rparr>;
               c2 = c1\<lparr>cache := (cache c1)(key kv := None)\<rparr>;
               c3 = c2\<lparr>nbytes := nbytes c2 - entry_bytes kv\<rparr>
           in (case OnEvicted c3 of
                 None \<Rightarrow> c3
               | Some f \<Rightarrow> c3\<lparr>world := f (store.truncate c3) (key kv) (val kv) (world c3)\<rparr>)))"

text \<open>The first half of \<^verbatim>\<open>Add\<close> (lines 66 to 75): update the entry of the key, or insert one.\<close>

definition Add_entry :: "'w Cache \<Rightarrow> string \<Rightarrow> Value \<Rightarrow> 'w Cache" where
  "Add_entry c k v =
     (case cache c k of
        Some ele \<Rightarrow>
          (let c1 = c\<lparr>ll := MoveToFront ele (ll c)\<rparr>;
               kv = elems c1 ele;
               c2 = c1\<lparr>nbytes := nbytes c1 + (Len v - Len (val kv))\<rparr>
           in c2\<lparr>elems := (elems c2)(ele := kv\<lparr>val := v\<rparr>)\<rparr>)
      | None \<Rightarrow>
          (let newEle = newElement (ll c);
               c1 = c\<lparr>ll := PushFront newEle (ll c),
                      elems := (elems c)(newEle := \<lparr>key = k, val = v\<rparr>)\<rparr>;
               c2 = c1\<lparr>cache := (cache c1)(k \<mapsto> newEle)\<rparr>
           in c2\<lparr>nbytes := nbytes c2 + (of_nat (length k) + Len v)\<rparr>))"

text \<open>
  The second half (lines 78 to 80): the eviction loop. Nothing in the code bounds the
  number of rounds, so the loop is a partial function: \<open>None\<close> means that it never ends.
\<close>

partial_function (option) evict :: "'w Cache \<Rightarrow> 'w Cache option" where
  "evict c =
     (if maxBytes c \<noteq> 0 \<and> maxBytes c <s nbytes c then evict (RemoveOldest c) else Some c)"

definition Add :: "'w Cache \<Rightarrow> string \<Rightarrow> Value \<Rightarrow> 'w Cache option" where
  "Add c k v = evict (Add_entry c k v)"

definition Cache_Len :: "'w Cache \<Rightarrow> nat" where
  "Cache_Len c = length (ll c)"

subsection \<open>Sequences of calls\<close>

datatype op = OpGet string | OpAdd string Value | OpRemoveOldest

fun step :: "'w Cache \<Rightarrow> op \<Rightarrow> 'w Cache option" where
  "step c (OpGet k) = Some (fst (Get c k))"
| "step c (OpAdd k v) = Add c k v"
| "step c OpRemoveOldest = Some (RemoveOldest c)"

fun run :: "'w Cache \<Rightarrow> op list \<Rightarrow> 'w Cache option" where
  "run c [] = Some c"
| "run c (x # xs) = (case step c x of None \<Rightarrow> None | Some c' \<Rightarrow> run c' xs)"

fun Adds :: "'w Cache \<Rightarrow> (string \<times> Value) list \<Rightarrow> 'w Cache option" where
  "Adds c [] = Some c"
| "Adds c (kv # kvs) = (case Add c (fst kv) (snd kv) of None \<Rightarrow> None | Some c' \<Rightarrow> Adds c' kvs)"


subsection \<open>What the claims speak about\<close>

text \<open>The keys of the resident entries, most recently used first.\<close>

definition order_keys :: "'w Cache \<Rightarrow> string list" where
  "order_keys c = map (\<lambda>e. key (elems c e)) (ll c)"

definition resident :: "'w Cache \<Rightarrow> string \<Rightarrow> bool" where
  "resident c k = (k \<in> set (order_keys c))"

text \<open>The resident entries, most recently used first.\<close>

definition entries :: "'w Cache \<Rightarrow> entry list" where
  "entries c = map (elems c) (ll c)"

text \<open>\<open>n\<close> calls of \<^verbatim>\<open>RemoveOldest\<close>, one after the other.\<close>

definition evictions :: "nat \<Rightarrow> 'w Cache \<Rightarrow> 'w Cache" where
  "evictions n c = (RemoveOldest ^^ n) c"


text \<open>What an access to key \<open>k\<close> does to the keys in recency order: \<open>k\<close> comes first.\<close>

definition touch :: "'a \<Rightarrow> 'a list \<Rightarrow> 'a list" where
  "touch k ks = k # remove1 k ks"

text \<open>The size of an entry and of the resident entries as mathematical integers.\<close>

definition entry_size :: "entry \<Rightarrow> int" where
  "entry_size kv = int (length (key kv)) + sint (Len (val kv))"

definition resident_bytes :: "'w Cache \<Rightarrow> int" where
  "resident_bytes c = (\<Sum>e\<leftarrow>ll c. entry_size (elems c e))"

text \<open>
  The consistency of list, index and byte count: the elements of the list are distinct,
  the index maps the key of each element to that element, it has no other key, and the
  byte count is the sum of the entries' bytes in 64-bit arithmetic.
\<close>

definition cache_inv :: "'w Cache \<Rightarrow> bool" where
  "cache_inv c \<longleftrightarrow>
     distinct (ll c) \<and>
     (\<forall>e\<in>set (ll c). cache c (key (elems c e)) = Some e) \<and>
     dom (cache c) = set (order_keys c) \<and>
     nbytes c = (\<Sum>e\<leftarrow>ll c. entry_bytes (elems c e))"


text \<open>
  The contract of \<^verbatim>\<open>Value\<close> (section 6 of the specification): \<^verbatim>\<open>Len()\<close> is not negative.
  \<open>well_sized\<close> says so of the resident values, and that their total fits \<^verbatim>\<open>int64\<close>.
\<close>

definition well_sized :: "'w Cache \<Rightarrow> bool" where
  "well_sized c \<longleftrightarrow> (\<forall>e\<in>set (ll c). 0 \<le>s Len (val (elems c e))) \<and> resident_bytes c < 2 ^ 63"

definition in_contract :: "'w Cache \<Rightarrow> string \<Rightarrow> Value \<Rightarrow> bool" where
  "in_contract c k v \<longleftrightarrow> 0 \<le>s Len v \<and> resident_bytes (Add_entry c k v) < 2 ^ 63"

definition any_call :: "'w Cache \<Rightarrow> string \<Rightarrow> Value \<Rightarrow> bool" where
  "any_call c k v = True"

text \<open>
  The states a caller can bring a new cache to, when each \<^verbatim>\<open>Add\<close> it makes satisfies \<open>ok\<close>.
  An \<^verbatim>\<open>Add\<close> that does not return leads nowhere.
\<close>

inductive reachable_by :: "('w Cache \<Rightarrow> string \<Rightarrow> Value \<Rightarrow> bool) \<Rightarrow> 'w Cache \<Rightarrow> bool"
  for ok :: "'w Cache \<Rightarrow> string \<Rightarrow> Value \<Rightarrow> bool" where
  r_New: "reachable_by ok (New mb onEvicted w)"
| r_Get: "reachable_by ok c \<Longrightarrow> reachable_by ok (fst (Get c k))"
| r_RemoveOldest: "reachable_by ok c \<Longrightarrow> reachable_by ok (RemoveOldest c)"
| r_Add: "reachable_by ok c \<Longrightarrow> ok c k v \<Longrightarrow> Add c k v = Some c' \<Longrightarrow> reachable_by ok c'"

definition reachable :: "'w Cache \<Rightarrow> bool" where
  "reachable c = reachable_by any_call c"

text \<open>
  A sequence of additions keeps the contract when each of them does, in the state the
  cache has when it is made.
\<close>

fun Adds_in_contract :: "'w Cache \<Rightarrow> (string \<times> Value) list \<Rightarrow> bool" where
  "Adds_in_contract c [] = True"
| "Adds_in_contract c (kv # kvs) =
     (in_contract c (fst kv) (snd kv) \<and>
      (case Add c (fst kv) (snd kv) of None \<Rightarrow> True | Some c' \<Rightarrow> Adds_in_contract c' kvs))"

subsection \<open>Example caches\<close>

text \<open>
  A callback that appends to a log the key and the value it is called with, and the
  number of entries and the byte count of the cache at that moment.
\<close>

definition log_eviction ::
  "store \<Rightarrow> string \<Rightarrow> Value \<Rightarrow> (string \<times> Value \<times> nat \<times> int64) list \<Rightarrow> (string \<times> Value \<times> nat \<times> int64) list" where
  "log_eviction s k v w = w @ [(k, v, length (ll s), nbytes s)]"

text \<open>
  A cache with a budget of 10 bytes after \<^verbatim>\<open>Add("a", x)\<close>, and after \<^verbatim>\<open>Add("b", y)\<close> as well,
  where \<^verbatim>\<open>x.Len()\<close> and \<^verbatim>\<open>y.Len()\<close> are 4.
\<close>

definition cache_a :: "(string \<times> Value \<times> nat \<times> int64) list Cache" where
  "cache_a =
     \<lparr>maxBytes = 10, nbytes = 5, ll = [1],
      elems = (\<lambda>_. nil_entry)(1 := \<lparr>key = ''a'', val = Value ''x'' 4\<rparr>),
      cache = [''a'' \<mapsto> 1], OnEvicted = Some log_eviction, world = []\<rparr>"

definition cache_ab :: "(string \<times> Value \<times> nat \<times> int64) list Cache" where
  "cache_ab =
     \<lparr>maxBytes = 10, nbytes = 10, ll = [2, 1],
      elems = (\<lambda>_. nil_entry)(1 := \<lparr>key = ''a'', val = Value ''x'' 4\<rparr>,
                               2 := \<lparr>key = ''b'', val = Value ''y'' 4\<rparr>),
      cache = [''a'' \<mapsto> 1, ''b'' \<mapsto> 2], OnEvicted = Some log_eviction, world = []\<rparr>"

text \<open>A cache with a budget of 5 bytes after \<^verbatim>\<open>Add("k", v1)\<close>, where \<^verbatim>\<open>v1.Len()\<close> is 1.\<close>

definition cache_k :: "unit Cache" where
  "cache_k =
     \<lparr>maxBytes = 5, nbytes = 2, ll = [1],
      elems = (\<lambda>_. nil_entry)(1 := \<lparr>key = ''k'', val = Value ''v1'' 1\<rparr>),
      cache = [''k'' \<mapsto> 1], OnEvicted = None, world = ()\<rparr>"

section \<open>The eviction loop\<close>

lemma evict_stop: "\<not> (maxBytes c \<noteq> 0 \<and> maxBytes c <s nbytes c) \<Longrightarrow> evict c = Some c"
  by (subst evict.simps) auto

lemma evict_step:
  "maxBytes c \<noteq> 0 \<Longrightarrow> maxBytes c <s nbytes c \<Longrightarrow> evict c = evict (RemoveOldest c)"
  by (subst evict.simps) simp

lemma newElement_fresh: "newElement l \<notin> set l"
proof
  assume "newElement l \<in> set l"
  then have "newElement l \<le> Max (set (0 # l))" by simp
  also have "\<dots> = fold max l 0" by (rule Max.set_eq_fold)
  finally show False by (simp add: newElement_def)
qed

lemma evict_invariant:
  assumes "evict c = Some c'" and "P c"
    and step: "\<And>d. P d \<Longrightarrow> maxBytes d \<noteq> 0 \<Longrightarrow> maxBytes d <s nbytes d \<Longrightarrow> P (RemoveOldest d)"
  shows "P c' \<and> \<not> (maxBytes c' \<noteq> 0 \<and> maxBytes c' <s nbytes c')"
proof -
  have "P c \<longrightarrow> P c' \<and> \<not> (maxBytes c' \<noteq> 0 \<and> maxBytes c' <s nbytes c')"
  proof (rule evict.raw_induct
      [where P = "\<lambda>x y. P x \<longrightarrow> P y \<and> \<not> (maxBytes y \<noteq> 0 \<and> maxBytes y <s nbytes y)",
        OF _ assms(1)])
    fix ev :: "'a Cache \<Rightarrow> 'a Cache option" and d y
    assume ih: "\<And>x y. ev x = Some y \<Longrightarrow>
        P x \<longrightarrow> P y \<and> \<not> (maxBytes y \<noteq> 0 \<and> maxBytes y <s nbytes y)"
      and eq: "(if maxBytes d \<noteq> 0 \<and> maxBytes d <s nbytes d then ev (RemoveOldest d) else Some d)
        = Some y"
    show "P d \<longrightarrow> P y \<and> \<not> (maxBytes y \<noteq> 0 \<and> maxBytes y <s nbytes y)"
    proof (cases "maxBytes d \<noteq> 0 \<and> maxBytes d <s nbytes d")
      case True
      with eq have "ev (RemoveOldest d) = Some y" by simp
      then have r: "P (RemoveOldest d) \<longrightarrow> P y \<and> \<not> (maxBytes y \<noteq> 0 \<and> maxBytes y <s nbytes y)"
        by (rule ih)
      show ?thesis
      proof
        assume "P d"
        then have "P (RemoveOldest d)" using True by (intro step) simp_all
        with r show "P y \<and> \<not> (maxBytes y \<noteq> 0 \<and> maxBytes y <s nbytes y)" ..
      qed
    next
      case False
      with eq have "y = d" by simp
      with False show ?thesis by simp
    qed
  qed
  with assms(2) show ?thesis by (rule rev_mp)
qed

lemma cache_inv_New: "cache_inv (New mb cb w)"
  by (simp add: cache_inv_def New_def order_keys_def)

lemma cache_inv_lookup:
  assumes "cache_inv c" and "cache c k = Some e"
  shows "e \<in> set (ll c) \<and> key (elems c e) = k"
proof -
  from assms have "k \<in> set (order_keys c)"
    unfolding cache_inv_def by blast
  then obtain e' where e': "e' \<in> set (ll c)" "key (elems c e') = k"
    by (auto simp: order_keys_def)
  with assms(1) have "cache c k = Some e'"
    unfolding cache_inv_def by blast
  with assms(2) e' show ?thesis by simp
qed

lemma cache_inv_key_inj:
  assumes "cache_inv c" and "a \<in> set (ll c)" and "b \<in> set (ll c)"
    and "key (elems c a) = key (elems c b)"
  shows "a = b"
proof -
  from assms(1,2) have A: "cache c (key (elems c a)) = Some a"
    unfolding cache_inv_def by blast
  from assms(1,3) have B: "cache c (key (elems c b)) = Some b"
    unfolding cache_inv_def by blast
  from A B assms(4) show ?thesis by (metis option.inject)
qed

lemma cache_inv_keys_distinct:
  assumes "cache_inv c"
  shows "distinct (order_keys c)"
proof -
  from assms have "distinct (ll c)" unfolding cache_inv_def by blast
  moreover have "inj_on (\<lambda>e. key (elems c e)) (set (ll c))"
    by (rule inj_onI) (rule cache_inv_key_inj [OF assms])
  ultimately show ?thesis
    unfolding order_keys_def distinct_map by blast
qed

lemma cache_inv_resident:
  assumes "cache_inv c"
  shows "resident c k \<longleftrightarrow> cache c k \<noteq> None"
proof -
  from assms have "dom (cache c) = set (order_keys c)"
    unfolding cache_inv_def by blast
  then have "k \<in> set (order_keys c) \<longleftrightarrow> k \<in> dom (cache c)" by simp
  then show ?thesis unfolding resident_def by (simp add: domIff)
qed

lemma remove1_last: "distinct l \<Longrightarrow> l \<noteq> [] \<Longrightarrow> remove1 (last l) l = butlast l"
  by (induction l) auto

section \<open>The operations, field by field\<close>

lemma MoveToFront_in: "e \<in> set l \<Longrightarrow> MoveToFront e l = e # remove1 e l"
  by (simp add: MoveToFront_def)

lemma Get_hit:
  "cache c k = Some e \<Longrightarrow> Get c k = (c\<lparr>ll := MoveToFront e (ll c)\<rparr>, Some (val (elems c e)), True)"
  by (simp add: Get_def Let_def)

lemma Get_miss: "cache c k = None \<Longrightarrow> Get c k = (c, None, False)"
  by (simp add: Get_def)

lemma RemoveOldest_empty: "ll c = [] \<Longrightarrow> RemoveOldest c = c"
  by (simp add: RemoveOldest_def Back_def)

lemma RemoveOldest_ll: "ll (RemoveOldest c) = (if ll c = [] then [] else remove1 (last (ll c)) (ll c))"
  by (simp add: RemoveOldest_def Back_def Remove_def Let_def split: option.split)

lemma RemoveOldest_elems: "elems (RemoveOldest c) = elems c"
  by (simp add: RemoveOldest_def Back_def Let_def split: option.split)

lemma RemoveOldest_maxBytes: "maxBytes (RemoveOldest c) = maxBytes c"
  by (simp add: RemoveOldest_def Back_def Let_def split: option.split)

lemma RemoveOldest_OnEvicted: "OnEvicted (RemoveOldest c) = OnEvicted c"
  by (simp add: RemoveOldest_def Back_def Let_def split: option.split)

lemma RemoveOldest_cache:
  "ll c \<noteq> [] \<Longrightarrow> cache (RemoveOldest c) = (cache c)(key (elems c (last (ll c))) := None)"
  by (simp add: RemoveOldest_def Back_def Let_def split: option.split)

lemma RemoveOldest_nbytes:
  "ll c \<noteq> [] \<Longrightarrow> nbytes (RemoveOldest c) = nbytes c - entry_bytes (elems c (last (ll c)))"
  by (simp add: RemoveOldest_def Back_def Let_def split: option.split)

lemma Add_entry_update:
  "cache c k = Some e \<Longrightarrow>
   Add_entry c k v =
     c\<lparr>ll := MoveToFront e (ll c),
       nbytes := nbytes c + (Len v - Len (val (elems c e))),
       elems := (elems c)(e := (elems c e)\<lparr>val := v\<rparr>)\<rparr>"
  by (simp add: Add_entry_def Let_def)

lemma Add_entry_insert:
  "cache c k = None \<Longrightarrow>
   Add_entry c k v =
     c\<lparr>ll := newElement (ll c) # ll c,
       elems := (elems c)(newElement (ll c) := \<lparr>key = k, val = v\<rparr>),
       cache := (cache c)(k \<mapsto> newElement (ll c)),
       nbytes := nbytes c + (of_nat (length k) + Len v)\<rparr>"
  by (simp add: Add_entry_def Let_def PushFront_def)

lemma Add_entry_maxBytes: "maxBytes (Add_entry c k v) = maxBytes c"
  by (simp add: Add_entry_def Let_def split: option.split)

lemma Add_entry_OnEvicted: "OnEvicted (Add_entry c k v) = OnEvicted c"
  by (simp add: Add_entry_def Let_def split: option.split)

lemma Add_entry_world: "world (Add_entry c k v) = world c"
  by (simp add: Add_entry_def Let_def split: option.split)

subsection \<open>The operations keep list, index and byte count consistent\<close>

lemma cache_inv_MoveToFront:
  assumes "cache_inv c"
  shows "cache_inv (c\<lparr>ll := MoveToFront e (ll c)\<rparr>)"
proof (cases "e \<in> set (ll c)")
  case False
  then show ?thesis using assms by (simp add: MoveToFront_def)
next
  case True
  from assms have d: "distinct (ll c)" unfolding cache_inv_def by blast
  from True d have s: "set (e # remove1 e (ll c)) = set (ll c)" by auto
  from True have sm: "(\<Sum>a\<leftarrow>e # remove1 e (ll c). entry_bytes (elems c a))
      = (\<Sum>a\<leftarrow>ll c. entry_bytes (elems c a))"
    by (simp add: sum_list_map_remove1)
  from d True have d': "distinct (e # remove1 e (ll c))" by simp
  have k: "set (map (\<lambda>a. key (elems c a)) (e # remove1 e (ll c)))
      = set (map (\<lambda>a. key (elems c a)) (ll c))"
    unfolding set_map s ..
  from assms d' s sm k show ?thesis
    unfolding cache_inv_def order_keys_def MoveToFront_in [OF True]
    by (simp del: set_simps list.map set_remove1_eq distinct.simps sum_list.Cons)
qed

lemma cache_inv_Get: "cache_inv c \<Longrightarrow> cache_inv (fst (Get c k))"
  by (cases "cache c k") (simp_all add: Get_miss Get_hit cache_inv_MoveToFront)

lemma cache_inv_RemoveOldest:
  assumes "cache_inv c"
  shows "cache_inv (RemoveOldest c)"
proof (cases "ll c = []")
  case True
  with assms show ?thesis by (simp add: RemoveOldest_empty)
next
  case False
  define e where "e = last (ll c)"
  define l where "l = butlast (ll c)"
  define f where "f = (\<lambda>a. key (elems c a))"
  from assms have d: "distinct (ll c)" unfolding cache_inv_def by blast
  from False have split: "ll c = l @ [e]" by (simp add: l_def e_def)
  from d split have e_notin: "e \<notin> set l" by simp
  from d split have dl: "distinct l" by simp
  have e_in: "e \<in> set (ll c)" using split by simp
  have l_sub: "set l \<subseteq> set (ll c)" using split by auto
  have ll': "ll (RemoveOldest c) = l"
    using False d by (simp add: RemoveOldest_ll remove1_last l_def)
  have ca': "cache (RemoveOldest c) = (cache c)(f e := None)"
    using False by (simp add: RemoveOldest_cache f_def e_def)
  have nb': "nbytes (RemoveOldest c) = nbytes c - entry_bytes (elems c e)"
    using False by (simp add: RemoveOldest_nbytes e_def)
  have key_ne: "f a \<noteq> f e" if "a \<in> set l" for a
  proof
    assume "f a = f e"
    with assms that l_sub e_in have "a = e"
      unfolding f_def by (intro cache_inv_key_inj [of c]) auto
    with that e_notin show False by simp
  qed
  have 1: "\<forall>a\<in>set l. ((cache c)(f e := None)) (f a) = Some a"
  proof
    fix a assume a: "a \<in> set l"
    with assms l_sub have "cache c (f a) = Some a"
      unfolding cache_inv_def f_def by blast
    with key_ne [OF a] show "((cache c)(f e := None)) (f a) = Some a" by simp
  qed
  from assms have "dom (cache c) = f ` set (ll c)"
    unfolding cache_inv_def order_keys_def f_def by simp
  then have "dom ((cache c)(f e := None)) = f ` set (ll c) - {f e}" by simp
  also have "\<dots> = f ` set l"
    using key_ne unfolding split by auto
  finally have 2: "dom ((cache c)(f e := None)) = set (map f l)" by simp
  from assms have "nbytes c = (\<Sum>a\<leftarrow>ll c. entry_bytes (elems c a))"
    unfolding cache_inv_def by blast
  then have 3: "nbytes c - entry_bytes (elems c e) = (\<Sum>a\<leftarrow>l. entry_bytes (elems c a))"
    unfolding split by simp
  from dl 1 2 3 show ?thesis
    unfolding cache_inv_def order_keys_def ll' ca' nb' RemoveOldest_elems f_def by simp
qed

lemma cache_inv_Add_entry:
  assumes "cache_inv c"
  shows "cache_inv (Add_entry c k v)"
proof (cases "cache c k")
  case None
  define n where "n = newElement (ll c)"
  define f where "f = (\<lambda>a. key (elems c a))"
  define els where "els = (elems c)(n := \<lparr>key = k, val = v\<rparr>)"
  have n_notin: "n \<notin> set (ll c)" unfolding n_def by (rule newElement_fresh)
  from assms have d: "distinct (ll c)" unfolding cache_inv_def by blast
  have old: "els a = elems c a" if "a \<in> set (ll c)" for a
    using that n_notin by (auto simp: els_def)
  have k_new: "f a \<noteq> k" if "a \<in> set (ll c)" for a
  proof
    assume "f a = k"
    with assms that have "cache c k = Some a" unfolding cache_inv_def f_def by blast
    with None show False by simp
  qed
  have 1: "\<forall>a\<in>set (n # ll c). ((cache c)(k \<mapsto> n)) (key (els a)) = Some a"
  proof
    fix a assume "a \<in> set (n # ll c)"
    then consider "a = n" | "a \<in> set (ll c)" by auto
    then show "((cache c)(k \<mapsto> n)) (key (els a)) = Some a"
    proof cases
      case 1 then show ?thesis by (simp add: els_def)
    next
      case 2
      with assms have "cache c (f a) = Some a" unfolding cache_inv_def f_def by blast
      with k_new [OF 2] old [OF 2] show ?thesis by (simp add: f_def)
    qed
  qed
  have m: "map (\<lambda>a. key (els a)) (ll c) = map f (ll c)"
    using old by (simp add: f_def)
  from assms have "dom (cache c) = set (map f (ll c))"
    unfolding cache_inv_def order_keys_def f_def by simp
  then have 2: "dom ((cache c)(k \<mapsto> n)) = set (map (\<lambda>a. key (els a)) (n # ll c))"
    using m by (simp add: els_def)
  have mm: "map (\<lambda>a. entry_bytes (els a)) (ll c) = map (\<lambda>a. entry_bytes (elems c a)) (ll c)"
    using old by simp
  from assms have "nbytes c = (\<Sum>a\<leftarrow>ll c. entry_bytes (elems c a))"
    unfolding cache_inv_def by blast
  then have nb: "nbytes c = (\<Sum>a\<leftarrow>ll c. entry_bytes (els a))"
    unfolding mm .
  have en: "entry_bytes (els n) = of_nat (length k) + Len v"
    by (simp add: els_def entry_bytes_def)
  have 3: "nbytes c + (of_nat (length k) + Len v) = (\<Sum>a\<leftarrow>n # ll c. entry_bytes (els a))"
    unfolding list.map sum_list.Cons en nb [symmetric] by simp
  from d n_notin have 0: "distinct (n # ll c)" by simp
  from 0 1 2 3 show ?thesis
    unfolding cache_inv_def order_keys_def Add_entry_insert [OF None] n_def [symmetric]
      els_def [symmetric]
    by (simp del: set_simps list.map distinct.simps sum_list.Cons fun_upd_apply)
next
  case (Some e)
  define c1 where "c1 = c\<lparr>ll := MoveToFront e (ll c)\<rparr>"
  define old where "old = elems c e"
  define els where "els = (elems c)(e := old\<lparr>val := v\<rparr>)"
  have inv1: "cache_inv c1" unfolding c1_def using assms by (rule cache_inv_MoveToFront)
  from assms Some have e_in: "e \<in> set (ll c)" by (simp add: cache_inv_lookup)
  have l1: "ll c1 = e # remove1 e (ll c)" unfolding c1_def using e_in by (simp add: MoveToFront_in)
  from inv1 have d: "distinct (ll c1)" unfolding cache_inv_def by blast
  have keys: "key (els a) = key (elems c a)" for a
    by (simp add: els_def old_def)
  from inv1 have 1: "\<forall>a\<in>set (ll c1). cache c (key (els a)) = Some a"
    unfolding cache_inv_def keys by (simp add: c1_def)
  from inv1 have 2: "dom (cache c) = set (map (\<lambda>a. key (els a)) (ll c1))"
    unfolding cache_inv_def order_keys_def keys by (simp add: c1_def)
  from d l1 have "e \<notin> set (remove1 e (ll c))" by simp
  then have "map (\<lambda>a. entry_bytes (els a)) (remove1 e (ll c))
      = map (\<lambda>a. entry_bytes (elems c a)) (remove1 e (ll c))"
    by (auto simp: els_def)
  then have s1: "(\<Sum>a\<leftarrow>ll c1. entry_bytes (els a))
      = entry_bytes (els e) + (\<Sum>a\<leftarrow>remove1 e (ll c). entry_bytes (elems c a))"
    unfolding l1 list.map sum_list.Cons by (simp only:)
  from inv1 have "nbytes c = (\<Sum>a\<leftarrow>ll c1. entry_bytes (elems c a))"
    unfolding cache_inv_def by (simp add: c1_def)
  then have s2: "nbytes c = entry_bytes old + (\<Sum>a\<leftarrow>remove1 e (ll c). entry_bytes (elems c a))"
    unfolding l1 old_def by simp
  have "entry_bytes (els e) = entry_bytes old + (Len v - Len (val old))"
    by (simp add: els_def entry_bytes_def)
  with s1 s2 have 3: "nbytes c + (Len v - Len (val old)) = (\<Sum>a\<leftarrow>ll c1. entry_bytes (els a))"
    by simp
  have eq: "Add_entry c k v = c\<lparr>ll := ll c1, nbytes := nbytes c + (Len v - Len (val old)), elems := els\<rparr>"
    unfolding Add_entry_update [OF Some] c1_def els_def old_def by simp
  from d 1 2 3 show ?thesis
    unfolding cache_inv_def order_keys_def eq by simp
qed

section \<open>The loop ends, and what it leaves\<close>

lemma RemoveOldest_ll_inv: "cache_inv c \<Longrightarrow> ll (RemoveOldest c) = butlast (ll c)"
  by (simp add: RemoveOldest_ll remove1_last cache_inv_def)

lemma evict_result:
  assumes "evict c = Some c'" and "cache_inv c"
  shows "cache_inv c' \<and> maxBytes c' = maxBytes c \<and> elems c' = elems c \<and>
         OnEvicted c' = OnEvicted c \<and> (\<exists>n. ll c' = take n (ll c)) \<and>
         \<not> (maxBytes c' \<noteq> 0 \<and> maxBytes c' <s nbytes c')"
proof -
  define P where "P = (\<lambda>d::'a Cache. cache_inv d \<and> maxBytes d = maxBytes c \<and> elems d = elems c \<and>
         OnEvicted d = OnEvicted c \<and> (\<exists>n. ll d = take n (ll c)))"
  have "P c' \<and> \<not> (maxBytes c' \<noteq> 0 \<and> maxBytes c' <s nbytes c')"
  proof (rule evict_invariant [OF assms(1)])
    have "ll c = take (length (ll c)) (ll c)" by simp
    then have "\<exists>n. ll c = take n (ll c)" ..
    with assms(2) show "P c" unfolding P_def by simp
  next
    fix d assume "P d"
    then have inv: "cache_inv d" and rest: "maxBytes d = maxBytes c" "elems d = elems c"
      "OnEvicted d = OnEvicted c" and "\<exists>n. ll d = take n (ll c)"
      unfolding P_def by blast+
    then obtain n where n: "ll d = take n (ll c)" by blast
    from inv have "ll (RemoveOldest d) = butlast (ll d)" by (rule RemoveOldest_ll_inv)
    also have "\<dots> = take (length (ll d) - 1) (take n (ll c))"
      unfolding n by (simp add: butlast_conv_take)
    also have "\<dots> = take (min (length (ll d) - 1) n) (ll c)" by simp
    finally have "\<exists>m. ll (RemoveOldest d) = take m (ll c)" ..
    with inv rest show "P (RemoveOldest d)"
      unfolding P_def
      by (simp add: cache_inv_RemoveOldest RemoveOldest_maxBytes RemoveOldest_elems
          RemoveOldest_OnEvicted)
  qed
  then show ?thesis unfolding P_def by blast
qed

lemma evict_terminates:
  assumes "cache_inv c" and "0 \<le>s maxBytes c"
  shows "\<exists>c'. evict c = Some c'"
  using assms
proof (induction "length (ll c)" arbitrary: c rule: less_induct)
  case less
  show ?case
  proof (cases "maxBytes c \<noteq> 0 \<and> maxBytes c <s nbytes c")
    case False
    then have "evict c = Some c" by (rule evict_stop)
    then show ?thesis ..
  next
    case True
    have ne: "ll c \<noteq> []"
    proof
      assume "ll c = []"
      with less.prems(1) have "nbytes c = 0" unfolding cache_inv_def by simp
      with True less.prems(2) show False
        by (simp add: word_sless_alt word_sle_eq)
    qed
    have "length (ll (RemoveOldest c)) < length (ll c)"
      using ne less.prems(1) by (simp add: RemoveOldest_ll_inv)
    moreover have "cache_inv (RemoveOldest c)"
      using less.prems(1) by (rule cache_inv_RemoveOldest)
    moreover have "0 \<le>s maxBytes (RemoveOldest c)"
      using less.prems(2) by (simp add: RemoveOldest_maxBytes)
    ultimately have "\<exists>c'. evict (RemoveOldest c) = Some c'"
      by (rule less.hyps)
    with True show ?thesis by (simp add: evict_step)
  qed
qed

lemma cache_inv_Add: "Add c k v = Some c' \<Longrightarrow> cache_inv c \<Longrightarrow> cache_inv c'"
  unfolding Add_def using evict_result [of "Add_entry c k v" c'] cache_inv_Add_entry [of c k v]
  by blast

lemma Add_maxBytes: "Add c k v = Some c' \<Longrightarrow> cache_inv c \<Longrightarrow> maxBytes c' = maxBytes c"
  unfolding Add_def using evict_result [of "Add_entry c k v" c'] cache_inv_Add_entry [of c k v]
  by (simp add: Add_entry_maxBytes)

lemma Get_maxBytes: "maxBytes (fst (Get c k)) = maxBytes c"
  by (cases "cache c k") (simp_all add: Get_miss Get_hit)

lemma reachable_by_inv: "reachable_by ok c \<Longrightarrow> cache_inv c"
  by (induction rule: reachable_by.induct)
    (simp_all add: cache_inv_New cache_inv_Get cache_inv_RemoveOldest cache_inv_Add)

lemma sint_word_of_int_64:
  "- (2 ^ 63) \<le> x \<Longrightarrow> x < 2 ^ 63 \<Longrightarrow> sint (word_of_int x :: 64 word) = x"
  by (simp add: sint_sbintrunc' signed_take_bit_int_eq_self)

lemma entry_bytes_size: "entry_bytes kv = word_of_int (entry_size kv)"
  by (simp add: entry_bytes_def entry_size_def)

lemma word_of_int_sum_list: "(word_of_int (sum_list xs) :: 64 word) = sum_list (map word_of_int xs)"
  by (induction xs) simp_all

lemma nbytes_resident: "cache_inv c \<Longrightarrow> nbytes c = word_of_int (resident_bytes c)"
  by (simp add: cache_inv_def resident_bytes_def word_of_int_sum_list entry_bytes_size comp_def)

section \<open>Reachable states\<close>


lemma reachable_inv: "reachable c \<Longrightarrow> cache_inv c"
  unfolding reachable_def by (rule reachable_by_inv)

lemmas eval_simps =
  New_def Get_def Add_def Add_entry_def RemoveOldest_def Cache_Len_def
  Back_def MoveToFront_def Remove_def PushFront_def newElement_def
  entry_bytes_def evict_stop evict_step word_sless_alt Let_def

lemma reachable_New: "reachable (New mb cb w)"
  unfolding reachable_def by (rule r_New)

lemma reachable_Add: "reachable c \<Longrightarrow> Add c k v = Some c' \<Longrightarrow> reachable c'"
  unfolding reachable_def by (rule r_Add) (simp_all add: any_call_def)

lemma reachable_Get: "reachable c \<Longrightarrow> reachable (fst (Get c k))"
  unfolding reachable_def by (rule r_Get)

lemma reachable_RemoveOldest: "reachable c \<Longrightarrow> reachable (RemoveOldest c)"
  unfolding reachable_def by (rule r_RemoveOldest)

lemma reachable_run: "reachable c \<Longrightarrow> run c ops = Some c' \<Longrightarrow> reachable c'"
proof (induction ops arbitrary: c)
  case Nil
  then show ?case by simp
next
  case (Cons x xs)
  from Cons.prems(2) obtain c1 where s: "step c x = Some c1" and r: "run c1 xs = Some c'"
    by (auto split: option.splits)
  from s Cons.prems(1) have "reachable c1"
    by (cases x) (auto intro: reachable_Get reachable_Add reachable_RemoveOldest)
  then show ?case using r by (rule Cons.IH)
qed

lemma Add_cache_a: "Add (New 10 (Some log_eviction) []) ''a'' (Value ''x'' 4) = Some cache_a"
  by (simp add: eval_simps cache_a_def)

lemma Add_cache_ab: "Add cache_a ''b'' (Value ''y'' 4) = Some cache_ab"
  by (simp add: eval_simps cache_a_def cache_ab_def numeral_2_eq_2)

lemma reachable_cache_a: "reachable cache_a"
  by (rule reachable_Add [OF reachable_New Add_cache_a])

lemma reachable_cache_ab: "reachable cache_ab"
  by (rule reachable_Add [OF reachable_cache_a Add_cache_ab])

section \<open>The recency order\<close>

lemma map_remove1_inj:
  "inj_on f (set l) \<Longrightarrow> e \<in> set l \<Longrightarrow> map f (remove1 e l) = remove1 (f e) (map f l)"
proof (induction l)
  case Nil
  then show ?case by simp
next
  case (Cons x xs)
  show ?case
  proof (cases "x = e")
    case True
    then show ?thesis by simp
  next
    case False
    with Cons.prems have "f x \<noteq> f e" and "e \<in> set xs" and "inj_on f (set xs)"
      by (auto simp: inj_on_def)
    with Cons.IH False show ?thesis by simp
  qed
qed

lemma cache_inv_key_inj_on: "cache_inv c \<Longrightarrow> inj_on (\<lambda>a. key (elems c a)) (set (ll c))"
  by (rule inj_onI) (rule cache_inv_key_inj)

lemma order_keys_MoveToFront:
  assumes "cache_inv c" and "e \<in> set (ll c)"
  shows "order_keys (c\<lparr>ll := MoveToFront e (ll c)\<rparr>)
         = key (elems c e) # remove1 (key (elems c e)) (order_keys c)"
  using assms
  by (simp add: order_keys_def MoveToFront_in map_remove1_inj [OF cache_inv_key_inj_on])

lemma RemoveOldest_world:
  "ll c \<noteq> [] \<Longrightarrow>
   world (RemoveOldest c) =
     (case OnEvicted c of
        None \<Rightarrow> world c
      | Some f \<Rightarrow> f (store.truncate (RemoveOldest c)) (key (elems c (last (ll c))))
                   (val (elems c (last (ll c)))) (world c))"
  by (simp add: RemoveOldest_def Back_def Let_def store.truncate_def split: option.split)

lemma order_keys_Add_entry:
  assumes "cache_inv c"
  shows "order_keys (Add_entry c k v) = touch k (order_keys c)"
proof (cases "cache c k")
  case None
  from assms have "dom (cache c) = set (order_keys c)" unfolding cache_inv_def by blast
  with None have nk: "k \<notin> set (order_keys c)" by (auto simp: domIff)
  have "newElement (ll c) \<notin> set (ll c)" by (rule newElement_fresh)
  then have "map (\<lambda>a. key (((elems c)(newElement (ll c) := \<lparr>key = k, val = v\<rparr>)) a)) (ll c)
      = map (\<lambda>a. key (elems c a)) (ll c)"
    by (intro map_cong) auto
  then have "order_keys (Add_entry c k v) = k # order_keys c"
    unfolding Add_entry_insert [OF None] order_keys_def by simp
  with nk show ?thesis by (simp add: touch_def remove1_idem)
next
  case (Some e)
  from assms Some have e: "e \<in> set (ll c)" and k: "key (elems c e) = k"
    by (simp_all add: cache_inv_lookup)
  have "key (((elems c)(e := (elems c e)\<lparr>val := v\<rparr>)) a) = key (elems c a)" for a
    by simp
  then have "order_keys (Add_entry c k v) = order_keys (c\<lparr>ll := MoveToFront e (ll c)\<rparr>)"
    unfolding Add_entry_update [OF Some] order_keys_def by simp
  also have "\<dots> = key (elems c e) # remove1 (key (elems c e)) (order_keys c)"
    using assms e by (rule order_keys_MoveToFront)
  finally show ?thesis unfolding k touch_def .
qed

section \<open>Without a budget\<close>

lemma Add_unbounded: "maxBytes c = 0 \<Longrightarrow> Add c k v = Some (Add_entry c k v)"
  unfolding Add_def by (rule evict_stop) (simp add: Add_entry_maxBytes)

lemma set_fold_touch: "set (fold touch ks l) = set ks \<union> set l"
proof (induction ks arbitrary: l)
  case Nil
  show ?case by simp
next
  case (Cons k ks)
  have "x \<in> set (touch k l) \<longleftrightarrow> x \<in> insert k (set l)" for x
    by (cases "x = k") (simp_all add: touch_def in_set_remove1)
  then have "set (touch k l) = insert k (set l)" by blast
  with Cons.IH [of "touch k l"] show ?case by simp
qed

lemma fold_touch_new:
  "distinct ks \<Longrightarrow> set ks \<inter> set l = {} \<Longrightarrow> fold touch ks l = rev ks @ l"
proof (induction ks arbitrary: l)
  case Nil
  show ?case by simp
next
  case (Cons k ks)
  from Cons.prems have "k \<notin> set l" by auto
  then have t: "touch k l = k # l" by (simp add: touch_def remove1_idem)
  from Cons.prems have "distinct ks" and "set ks \<inter> set (k # l) = {}" by auto
  then have "fold touch ks (k # l) = rev ks @ k # l" by (rule Cons.IH)
  with t show ?case by simp
qed

lemma Adds_unbounded:
  assumes "cache_inv c" and "maxBytes c = 0"
  shows "\<exists>c'. Adds c kvs = Some c' \<and> cache_inv c' \<and> maxBytes c' = 0 \<and> world c' = world c \<and>
           order_keys c' = fold touch (map fst kvs) (order_keys c)"
  using assms
proof (induction kvs arbitrary: c)
  case Nil
  then show ?case by simp
next
  case (Cons kv kvs)
  define c1 where "c1 = Add_entry c (fst kv) (snd kv)"
  have a: "Add c (fst kv) (snd kv) = Some c1"
    unfolding c1_def using Cons.prems(2) by (rule Add_unbounded)
  have i1: "cache_inv c1" unfolding c1_def using Cons.prems(1) by (rule cache_inv_Add_entry)
  have m1: "maxBytes c1 = 0" unfolding c1_def using Cons.prems(2) by (simp add: Add_entry_maxBytes)
  have w1: "world c1 = world c" unfolding c1_def by (rule Add_entry_world)
  have o1: "order_keys c1 = touch (fst kv) (order_keys c)"
    unfolding c1_def using Cons.prems(1) by (rule order_keys_Add_entry)
  from Cons.IH [OF i1 m1] obtain c' where "Adds c1 kvs = Some c'" "cache_inv c'" "maxBytes c' = 0"
    "world c' = world c1" "order_keys c' = fold touch (map fst kvs) (order_keys c1)"
    by blast
  with a w1 o1 show ?case by simp
qed

section \<open>Sizes within the contract\<close>

lemma sum_list_take_le:
  fixes f :: "'a \<Rightarrow> int"
  assumes "\<forall>x\<in>set xs. 0 \<le> f x"
  shows "(\<Sum>x\<leftarrow>take n xs. f x) \<le> (\<Sum>x\<leftarrow>xs. f x)"
proof -
  have "set (drop n xs) \<subseteq> set xs" by (rule set_drop_subset)
  with assms have "0 \<le> (\<Sum>x\<leftarrow>drop n xs. f x)"
    by (intro sum_list_nonneg) auto
  moreover have "(\<Sum>x\<leftarrow>xs. f x) = (\<Sum>x\<leftarrow>take n xs. f x) + (\<Sum>x\<leftarrow>drop n xs. f x)"
    by (metis append_take_drop_id map_append sum_list.append)
  ultimately show ?thesis by simp
qed

lemma sum_list_member_le:
  fixes f :: "'a \<Rightarrow> int"
  assumes "\<forall>x\<in>set xs. 0 \<le> f x" and "a \<in> set xs"
  shows "f a \<le> (\<Sum>x\<leftarrow>xs. f x)"
  using assms
proof (induction xs)
  case Nil
  then show ?case by simp
next
  case (Cons x xs)
  from Cons.prems(1) have nn: "0 \<le> (\<Sum>x\<leftarrow>xs. f x)" by (intro sum_list_nonneg) auto
  show ?case
  proof (cases "a = x")
    case True
    with nn show ?thesis by simp
  next
    case False
    with Cons.prems have "a \<in> set xs" and "\<forall>x\<in>set xs. 0 \<le> f x" and "0 \<le> f x" by auto
    with Cons.IH show ?thesis by simp
  qed
qed

lemma entry_size_nonneg: "0 \<le>s Len (val kv) \<Longrightarrow> 0 \<le> entry_size kv"
  by (simp add: entry_size_def word_sle_eq)

lemma well_sized_sizes: "well_sized c \<Longrightarrow> \<forall>e\<in>set (ll c). 0 \<le> entry_size (elems c e)"
  unfolding well_sized_def by (blast intro: entry_size_nonneg)

lemma resident_bytes_nonneg: "well_sized c \<Longrightarrow> 0 \<le> resident_bytes c"
  unfolding resident_bytes_def using well_sized_sizes [of c]
  by (intro sum_list_nonneg) auto

lemma sint_nbytes:
  assumes "cache_inv c" and "well_sized c"
  shows "sint (nbytes c) = resident_bytes c"
proof -
  from assms(2) have "0 \<le> resident_bytes c" by (rule resident_bytes_nonneg)
  then have a: "- (2 ^ 63) \<le> resident_bytes c" by simp
  from assms(2) have b: "resident_bytes c < 2 ^ 63" unfolding well_sized_def by blast
  from assms(1) have "nbytes c = word_of_int (resident_bytes c)" by (rule nbytes_resident)
  then show ?thesis by (simp only: sint_word_of_int_64 [OF a b])
qed

lemma well_sized_take:
  assumes "well_sized c" and "ll c' = take n (ll c)" and "elems c' = elems c"
  shows "well_sized c' \<and> resident_bytes c' \<le> resident_bytes c"
proof -
  have le: "resident_bytes c' \<le> resident_bytes c"
    unfolding resident_bytes_def assms(2,3)
    using well_sized_sizes [OF assms(1)] by (rule sum_list_take_le)
  have "set (take n (ll c)) \<subseteq> set (ll c)" by (rule set_take_subset)
  with assms(1) have "\<forall>e\<in>set (ll c'). 0 \<le>s Len (val (elems c' e))"
    unfolding well_sized_def assms(2,3) by blast
  moreover from assms(1) le have "resident_bytes c' < 2 ^ 63"
    unfolding well_sized_def by simp
  ultimately show ?thesis using le unfolding well_sized_def by blast
qed

lemma well_sized_RemoveOldest:
  assumes "cache_inv c" and "well_sized c"
  shows "well_sized (RemoveOldest c)"
proof -
  have "ll (RemoveOldest c) = take (length (ll c) - 1) (ll c)"
    using assms(1) by (simp add: RemoveOldest_ll_inv butlast_conv_take)
  with assms(2) show ?thesis
    using well_sized_take [of c "RemoveOldest c"] by (simp add: RemoveOldest_elems)
qed

lemma resident_bytes_MoveToFront:
  assumes "cache_inv c"
  shows "resident_bytes (c\<lparr>ll := MoveToFront e (ll c)\<rparr>) = resident_bytes c"
proof (cases "e \<in> set (ll c)")
  case True
  then show ?thesis
    by (simp add: resident_bytes_def MoveToFront_in sum_list_map_remove1)
next
  case False
  then show ?thesis by (simp add: MoveToFront_def)
qed

lemma well_sized_MoveToFront:
  assumes "cache_inv c" and "well_sized c"
  shows "well_sized (c\<lparr>ll := MoveToFront e (ll c)\<rparr>)"
proof -
  have "set (MoveToFront e (ll c)) \<subseteq> set (ll c)"
    using set_remove1_subset [of e "ll c"] by (auto simp: MoveToFront_def)
  with assms(2) show ?thesis
    unfolding well_sized_def resident_bytes_MoveToFront [OF assms(1)] by auto
qed

lemma well_sized_Get: "cache_inv c \<Longrightarrow> well_sized c \<Longrightarrow> well_sized (fst (Get c k))"
  by (cases "cache c k") (simp_all add: Get_miss Get_hit well_sized_MoveToFront)

lemma well_sized_New: "well_sized (New mb cb w)"
  by (simp add: well_sized_def New_def resident_bytes_def)

lemma Add_entry_head:
  assumes "cache_inv c"
  shows "ll (Add_entry c k v) \<noteq> [] \<and>
         key (elems (Add_entry c k v) (hd (ll (Add_entry c k v)))) = k \<and>
         val (elems (Add_entry c k v) (hd (ll (Add_entry c k v)))) = v"
proof (cases "cache c k")
  case None
  show ?thesis unfolding Add_entry_insert [OF None] by simp
next
  case (Some e)
  from assms Some have "e \<in> set (ll c)" and "key (elems c e) = k"
    by (simp_all add: cache_inv_lookup)
  then show ?thesis unfolding Add_entry_update [OF Some] by (simp add: MoveToFront_in)
qed

lemma resident_bytes_Add_entry_insert:
  assumes "cache c k = None"
  shows "resident_bytes (Add_entry c k v) = resident_bytes c + (int (length k) + sint (Len v))"
proof -
  define n where "n = newElement (ll c)"
  define els where "els = (elems c)(n := \<lparr>key = k, val = v\<rparr>)"
  have "n \<notin> set (ll c)" unfolding n_def by (rule newElement_fresh)
  then have "map (\<lambda>a. entry_size (els a)) (ll c) = map (\<lambda>a. entry_size (elems c a)) (ll c)"
    by (intro map_cong) (auto simp: els_def)
  then have s: "(\<Sum>a\<leftarrow>ll c. entry_size (els a)) = resident_bytes c"
    unfolding resident_bytes_def by (rule arg_cong)
  have h: "entry_size (els n) = int (length k) + sint (Len v)"
    by (simp add: els_def entry_size_def)
  have "resident_bytes (Add_entry c k v) = (\<Sum>a\<leftarrow>n # ll c. entry_size (els a))"
    unfolding Add_entry_insert [OF assms] resident_bytes_def n_def els_def by simp
  also have "\<dots> = entry_size (els n) + (\<Sum>a\<leftarrow>ll c. entry_size (els a))" by simp
  finally show ?thesis unfolding s h by simp
qed

lemma resident_bytes_Add_entry_update:
  assumes "cache_inv c" and "cache c k = Some e"
  shows "resident_bytes (Add_entry c k v)
         = resident_bytes c - sint (Len (val (elems c e))) + sint (Len v)"
proof -
  define els where "els = (elems c)(e := (elems c e)\<lparr>val := v\<rparr>)"
  from assms have e: "e \<in> set (ll c)" by (simp add: cache_inv_lookup)
  from assms(1) have "distinct (ll c)" unfolding cache_inv_def by blast
  then have "e \<notin> set (remove1 e (ll c))" by simp
  then have "map (\<lambda>a. entry_size (els a)) (remove1 e (ll c))
      = map (\<lambda>a. entry_size (elems c a)) (remove1 e (ll c))"
    by (intro map_cong) (auto simp: els_def)
  then have s: "(\<Sum>a\<leftarrow>remove1 e (ll c). entry_size (els a))
      = (\<Sum>a\<leftarrow>remove1 e (ll c). entry_size (elems c a))"
    by (rule arg_cong)
  have "resident_bytes (Add_entry c k v) = (\<Sum>a\<leftarrow>e # remove1 e (ll c). entry_size (els a))"
    unfolding Add_entry_update [OF assms(2)] resident_bytes_def MoveToFront_in [OF e] els_def
    by simp
  also have "\<dots> = entry_size (els e) + (\<Sum>a\<leftarrow>remove1 e (ll c). entry_size (els a))"
    by simp
  finally have 1: "resident_bytes (Add_entry c k v)
      = entry_size (els e) + (\<Sum>a\<leftarrow>remove1 e (ll c). entry_size (elems c a))"
    unfolding s .
  have 2: "resident_bytes c
      = entry_size (elems c e) + (\<Sum>a\<leftarrow>remove1 e (ll c). entry_size (elems c a))"
    unfolding resident_bytes_def using e by (simp add: sum_list_map_remove1)
  have 3: "entry_size (els e) = entry_size (elems c e) - sint (Len (val (elems c e))) + sint (Len v)"
    by (simp add: els_def entry_size_def)
  from 1 2 3 show ?thesis by simp
qed

lemma resident_bytes_Add_entry_le:
  assumes "cache_inv c" and "well_sized c"
  shows "resident_bytes (Add_entry c k v) \<le> resident_bytes c + (int (length k) + sint (Len v))"
proof (cases "cache c k")
  case None
  then show ?thesis by (simp add: resident_bytes_Add_entry_insert)
next
  case (Some e)
  from assms(1) Some have "e \<in> set (ll c)" by (simp add: cache_inv_lookup)
  with assms(2) have "0 \<le>s Len (val (elems c e))" unfolding well_sized_def by blast
  then have "0 \<le> sint (Len (val (elems c e)))" by (simp add: word_sle_eq)
  then show ?thesis
    unfolding resident_bytes_Add_entry_update [OF assms(1) Some] by simp
qed

lemma Add_entry_nonneg:
  assumes "well_sized c" and "0 \<le>s Len v"
  shows "\<forall>a\<in>set (ll (Add_entry c k v)). 0 \<le>s Len (val (elems (Add_entry c k v) a))"
proof (cases "cache c k")
  case None
  from assms show ?thesis
    unfolding Add_entry_insert [OF None] well_sized_def by simp
next
  case (Some e)
  have "set (MoveToFront e (ll c)) \<subseteq> set (ll c)"
    using set_remove1_subset [of e "ll c"] by (auto simp: MoveToFront_def)
  with assms show ?thesis
    unfolding Add_entry_update [OF Some] well_sized_def by auto
qed

lemma well_sized_Add_entry:
  "well_sized c \<Longrightarrow> in_contract c k v \<Longrightarrow> well_sized (Add_entry c k v)"
  using Add_entry_nonneg [of c v k] unfolding in_contract_def well_sized_def [of "Add_entry c k v"]
  by blast

lemma evict_contract:
  assumes "evict c = Some c'" and "cache_inv c" and "well_sized c"
  shows "cache_inv c' \<and> well_sized c' \<and> resident_bytes c' \<le> resident_bytes c \<and>
         maxBytes c' = maxBytes c \<and> elems c' = elems c \<and> (\<exists>n. ll c' = take n (ll c)) \<and>
         (maxBytes c \<noteq> 0 \<longrightarrow> resident_bytes c' \<le> sint (maxBytes c))"
proof -
  from evict_result [OF assms(1,2)] obtain n where r: "cache_inv c'" "maxBytes c' = maxBytes c"
    "elems c' = elems c" "ll c' = take n (ll c)"
    "\<not> (maxBytes c' \<noteq> 0 \<and> maxBytes c' <s nbytes c')"
    by blast
  from well_sized_take [OF assms(3) r(4) r(3)]
  have w: "well_sized c'" and le: "resident_bytes c' \<le> resident_bytes c" by blast+
  from r(1) w have s: "sint (nbytes c') = resident_bytes c'" by (rule sint_nbytes)
  have "resident_bytes c' \<le> sint (maxBytes c)" if "maxBytes c \<noteq> 0"
    using r(5) that unfolding r(2) word_sless_alt s by simp
  with r w le show ?thesis by blast
qed

lemma evict_diverges:
  assumes "cache_inv c" and "well_sized c" and "maxBytes c <s 0"
  shows "evict c = None"
proof (cases "evict c")
  case None
  then show ?thesis .
next
  case (Some c')
  from evict_contract [OF Some assms(1,2)]
  have w: "well_sized c'" and b: "maxBytes c \<noteq> 0 \<longrightarrow> resident_bytes c' \<le> sint (maxBytes c)"
    by blast+
  from assms(3) have neg: "sint (maxBytes c) < 0" by (simp add: word_sless_alt)
  then have "maxBytes c \<noteq> 0" by auto
  with b have "resident_bytes c' \<le> sint (maxBytes c)" by blast
  moreover from w have "0 \<le> resident_bytes c'" by (rule resident_bytes_nonneg)
  ultimately show ?thesis using neg by simp
qed

lemma reachable_contract_sized:
  assumes "reachable_by in_contract c"
  shows "well_sized c"
  using assms
proof (induction rule: reachable_by.induct)
  case (r_New mb onEvicted w)
  show ?case by (rule well_sized_New)
next
  case (r_Get c k)
  then show ?case by (simp add: well_sized_Get reachable_by_inv)
next
  case (r_RemoveOldest c)
  then show ?case by (simp add: well_sized_RemoveOldest reachable_by_inv)
next
  case (r_Add c k v c')
  from r_Add.hyps(1) have inv: "cache_inv c" by (rule reachable_by_inv)
  then have i1: "cache_inv (Add_entry c k v)" by (rule cache_inv_Add_entry)
  from r_Add.IH r_Add.hyps(2) have w1: "well_sized (Add_entry c k v)"
    by (rule well_sized_Add_entry)
  from r_Add.hyps(3) have "evict (Add_entry c k v) = Some c'" by (simp add: Add_def)
  from evict_contract [OF this i1 w1] show ?case by blast
qed

lemma Add_terminates:
  assumes "cache_inv c" and "0 \<le>s maxBytes c"
  shows "\<exists>c'. Add c k v = Some c'"
  unfolding Add_def
  using cache_inv_Add_entry [OF assms(1)] assms(2)
  by (intro evict_terminates) (simp_all add: Add_entry_maxBytes)

lemma Add_diverges:
  assumes "cache_inv c" and "well_sized c" and "in_contract c k v" and "maxBytes c <s 0"
  shows "Add c k v = None"
  unfolding Add_def
proof (rule evict_diverges)
  show "cache_inv (Add_entry c k v)" using assms(1) by (rule cache_inv_Add_entry)
  show "well_sized (Add_entry c k v)" using assms(2,3) by (rule well_sized_Add_entry)
  show "maxBytes (Add_entry c k v) <s 0" using assms(4) by (simp add: Add_entry_maxBytes)
qed

lemma Add_contract:
  assumes "cache_inv c" and "well_sized c" and "in_contract c k v" and "Add c k v = Some c'"
  shows "cache_inv c' \<and> well_sized c' \<and> maxBytes c' = maxBytes c \<and>
         resident_bytes c' \<le> resident_bytes (Add_entry c k v) \<and>
         (maxBytes c \<noteq> 0 \<longrightarrow> resident_bytes c' \<le> sint (maxBytes c)) \<and>
         (maxBytes c \<noteq> 0 \<and> sint (maxBytes c) < int (length k) + sint (Len v) \<longrightarrow> ll c' = [])"
proof -
  define c1 where "c1 = Add_entry c k v"
  have i1: "cache_inv c1" unfolding c1_def using assms(1) by (rule cache_inv_Add_entry)
  have w1: "well_sized c1" unfolding c1_def using assms(2,3) by (rule well_sized_Add_entry)
  have m1: "maxBytes c1 = maxBytes c" unfolding c1_def by (rule Add_entry_maxBytes)
  from assms(4) have ev: "evict c1 = Some c'" by (simp add: Add_def c1_def)
  from evict_contract [OF ev i1 w1] obtain n where r: "cache_inv c'" "well_sized c'"
    "resident_bytes c' \<le> resident_bytes c1" "maxBytes c' = maxBytes c1" "elems c' = elems c1"
    "ll c' = take n (ll c1)" "maxBytes c1 \<noteq> 0 \<longrightarrow> resident_bytes c' \<le> sint (maxBytes c1)"
    by blast
  have over: "ll c' = []"
    if nz: "maxBytes c \<noteq> 0" and big: "sint (maxBytes c) < int (length k) + sint (Len v)"
  proof (rule ccontr)
    assume ne: "ll c' \<noteq> []"
    from Add_entry_head [OF assms(1), of k v]
    have h: "ll c1 \<noteq> []" "key (elems c1 (hd (ll c1))) = k" "val (elems c1 (hd (ll c1))) = v"
      unfolding c1_def by blast+
    from ne r(6) have "hd (ll c') = hd (ll c1)" by (cases n; cases "ll c1") auto
    with ne have "hd (ll c1) \<in> set (ll c')" by (metis hd_in_set)
    with well_sized_sizes [OF r(2)]
    have "entry_size (elems c' (hd (ll c1))) \<le> resident_bytes c'"
      unfolding resident_bytes_def by (intro sum_list_member_le) auto
    then have "int (length k) + sint (Len v) \<le> resident_bytes c'"
      unfolding r(5) entry_size_def h .
    moreover from r(7) nz have "resident_bytes c' \<le> sint (maxBytes c)" by (simp add: m1)
    ultimately show False using big by simp
  qed
  from r m1 over show ?thesis unfolding c1_def by auto
qed

lemma Adds_snoc:
  "Adds c (kvs @ [kv]) = (case Adds c kvs of None \<Rightarrow> None | Some c' \<Rightarrow> Add c' (fst kv) (snd kv))"
  by (induction kvs arbitrary: c) (simp_all split: option.split)

lemma resident_bytes_Get: "cache_inv c \<Longrightarrow> resident_bytes (fst (Get c k)) = resident_bytes c"
  by (cases "cache c k") (simp_all add: Get_miss Get_hit resident_bytes_MoveToFront)

lemma resident_bytes_RemoveOldest:
  assumes "cache_inv c" and "well_sized c"
  shows "resident_bytes (RemoveOldest c) \<le> resident_bytes c"
proof -
  have "ll (RemoveOldest c) = take (length (ll c) - 1) (ll c)"
    using assms(1) by (simp add: RemoveOldest_ll_inv butlast_conv_take)
  with assms(2) show ?thesis
    using well_sized_take [of c "RemoveOldest c"] by (simp add: RemoveOldest_elems)
qed

lemma reachable_contract_budget:
  assumes "reachable_by in_contract c"
  shows "0 <s maxBytes c \<longrightarrow> resident_bytes c \<le> sint (maxBytes c)"
  using assms
proof (induction rule: reachable_by.induct)
  case (r_New mb onEvicted w)
  show ?case by (simp add: New_def resident_bytes_def word_sless_alt)
next
  case (r_Get c k)
  from r_Get.hyps have "cache_inv c" by (rule reachable_by_inv)
  with r_Get.IH show ?case by (simp add: resident_bytes_Get Get_maxBytes)
next
  case (r_RemoveOldest c)
  from r_RemoveOldest.hyps have "cache_inv c" and "well_sized c"
    by (rule reachable_by_inv, rule reachable_contract_sized)
  then have "resident_bytes (RemoveOldest c) \<le> resident_bytes c"
    by (rule resident_bytes_RemoveOldest)
  with r_RemoveOldest.IH show ?case unfolding RemoveOldest_maxBytes by auto
next
  case (r_Add c k v c')
  from r_Add.hyps(1) have inv: "cache_inv c" and ws: "well_sized c"
    by (rule reachable_by_inv, rule reachable_contract_sized)
  from Add_contract [OF inv ws r_Add.hyps(2,3)]
  have m: "maxBytes c' = maxBytes c"
    and b: "maxBytes c \<noteq> 0 \<longrightarrow> resident_bytes c' \<le> sint (maxBytes c)"
    by blast+
  show ?case
  proof
    assume "0 <s maxBytes c'"
    then have "maxBytes c \<noteq> 0" unfolding m by (auto simp: word_sless_alt)
    with b show "resident_bytes c' \<le> sint (maxBytes c')" unfolding m by blast
  qed
qed

section \<open>The evictions of one Add\<close>

lemma RemoveOldest_times:
  assumes "cache_inv d"
  shows "cache_inv ((RemoveOldest ^^ n) d) \<and>
         ll ((RemoveOldest ^^ n) d) = take (length (ll d) - n) (ll d) \<and>
         elems ((RemoveOldest ^^ n) d) = elems d \<and>
         maxBytes ((RemoveOldest ^^ n) d) = maxBytes d \<and>
         OnEvicted ((RemoveOldest ^^ n) d) = OnEvicted d"
proof (induction n)
  case 0
  with assms show ?case by simp
next
  case (Suc n)
  define s where "s = (RemoveOldest ^^ n) d"
  from Suc have i: "cache_inv s" and l: "ll s = take (length (ll d) - n) (ll d)"
    and r: "elems s = elems d" "maxBytes s = maxBytes d" "OnEvicted s = OnEvicted d"
    unfolding s_def by blast+
  have e: "(RemoveOldest ^^ Suc n) d = RemoveOldest s" by (simp add: s_def)
  have "ll (RemoveOldest s) = butlast (ll s)" using i by (rule RemoveOldest_ll_inv)
  also have "\<dots> = take (length (ll d) - Suc n) (ll d)"
    unfolding l by (simp add: butlast_take)
  finally have "ll (RemoveOldest s) = take (length (ll d) - Suc n) (ll d)" .
  with i r show ?case
    unfolding e
    by (simp add: cache_inv_RemoveOldest RemoveOldest_elems RemoveOldest_maxBytes
        RemoveOldest_OnEvicted)
qed

lemma order_keys_RemoveOldest_times:
  "cache_inv d \<Longrightarrow>
   order_keys ((RemoveOldest ^^ n) d) = take (length (order_keys d) - n) (order_keys d)"
  using RemoveOldest_times [of d n] by (simp add: order_keys_def take_map)

lemma RemoveOldest_times_empty: "ll d = [] \<Longrightarrow> (RemoveOldest ^^ n) d = d"
  by (induction n) (simp_all add: RemoveOldest_empty)

lemma RemoveOldest_times_all:
  assumes "cache_inv d" and "length (ll d) \<le> n"
  shows "(RemoveOldest ^^ n) d = (RemoveOldest ^^ length (ll d)) d"
proof -
  define L where "L = length (ll d)"
  from assms(2) obtain j where n: "n = j + L" unfolding L_def by (metis le_Suc_ex add.commute)
  have "ll ((RemoveOldest ^^ L) d) = []"
    using RemoveOldest_times [OF assms(1), of L] by (simp add: L_def)
  then have "(RemoveOldest ^^ j) ((RemoveOldest ^^ L) d) = (RemoveOldest ^^ L) d"
    by (rule RemoveOldest_times_empty)
  then show ?thesis unfolding n L_def [symmetric] by (simp add: funpow_add)
qed

lemma evict_times:
  assumes "evict d = Some c'"
  shows "\<exists>n. c' = (RemoveOldest ^^ n) d \<and>
           (\<forall>m<n. maxBytes ((RemoveOldest ^^ m) d) \<noteq> 0 \<and>
                   maxBytes ((RemoveOldest ^^ m) d) <s nbytes ((RemoveOldest ^^ m) d)) \<and>
           \<not> (maxBytes c' \<noteq> 0 \<and> maxBytes c' <s nbytes c')"
proof (rule evict.raw_induct
    [where P = "\<lambda>x y. \<exists>n. y = (RemoveOldest ^^ n) x \<and>
           (\<forall>m<n. maxBytes ((RemoveOldest ^^ m) x) \<noteq> 0 \<and>
                   maxBytes ((RemoveOldest ^^ m) x) <s nbytes ((RemoveOldest ^^ m) x)) \<and>
           \<not> (maxBytes y \<noteq> 0 \<and> maxBytes y <s nbytes y)",
      OF _ assms])
  fix ev :: "'a Cache \<Rightarrow> 'a Cache option" and x y
  assume ih: "\<And>x y. ev x = Some y \<Longrightarrow> \<exists>n. y = (RemoveOldest ^^ n) x \<and>
           (\<forall>m<n. maxBytes ((RemoveOldest ^^ m) x) \<noteq> 0 \<and>
                   maxBytes ((RemoveOldest ^^ m) x) <s nbytes ((RemoveOldest ^^ m) x)) \<and>
           \<not> (maxBytes y \<noteq> 0 \<and> maxBytes y <s nbytes y)"
    and eq: "(if maxBytes x \<noteq> 0 \<and> maxBytes x <s nbytes x then ev (RemoveOldest x) else Some x)
        = Some y"
  show "\<exists>n. y = (RemoveOldest ^^ n) x \<and>
           (\<forall>m<n. maxBytes ((RemoveOldest ^^ m) x) \<noteq> 0 \<and>
                   maxBytes ((RemoveOldest ^^ m) x) <s nbytes ((RemoveOldest ^^ m) x)) \<and>
           \<not> (maxBytes y \<noteq> 0 \<and> maxBytes y <s nbytes y)"
  proof (cases "maxBytes x \<noteq> 0 \<and> maxBytes x <s nbytes x")
    case False
    with eq have "y = x" by simp
    with False have "y = (RemoveOldest ^^ 0) x \<and>
           (\<forall>m<0. maxBytes ((RemoveOldest ^^ m) x) \<noteq> 0 \<and>
                   maxBytes ((RemoveOldest ^^ m) x) <s nbytes ((RemoveOldest ^^ m) x)) \<and>
           \<not> (maxBytes y \<noteq> 0 \<and> maxBytes y <s nbytes y)"
      by simp
    then show ?thesis ..
  next
    case True
    with eq have "ev (RemoveOldest x) = Some y" by simp
    from ih [OF this] obtain n where n: "y = (RemoveOldest ^^ n) (RemoveOldest x)"
      "\<forall>m<n. maxBytes ((RemoveOldest ^^ m) (RemoveOldest x)) \<noteq> 0 \<and>
             maxBytes ((RemoveOldest ^^ m) (RemoveOldest x))
               <s nbytes ((RemoveOldest ^^ m) (RemoveOldest x))"
      "\<not> (maxBytes y \<noteq> 0 \<and> maxBytes y <s nbytes y)"
      by blast
    have 1: "y = (RemoveOldest ^^ Suc n) x" unfolding n(1) by (simp add: funpow_swap1)
    have 2: "maxBytes ((RemoveOldest ^^ m) x) \<noteq> 0 \<and>
        maxBytes ((RemoveOldest ^^ m) x) <s nbytes ((RemoveOldest ^^ m) x)" if "m < Suc n" for m
    proof (cases m)
      case 0
      with True show ?thesis by simp
    next
      case (Suc j)
      with that have "j < n" by simp
      with n(2) have "maxBytes ((RemoveOldest ^^ j) (RemoveOldest x)) \<noteq> 0 \<and>
             maxBytes ((RemoveOldest ^^ j) (RemoveOldest x))
               <s nbytes ((RemoveOldest ^^ j) (RemoveOldest x))"
        by blast
      then show ?thesis unfolding Suc by (simp add: funpow_swap1)
    qed
    from 1 2 n(3) show ?thesis by blast
  qed
qed

lemma entries_Add_entry_head:
  assumes "cache_inv c"
  shows "entries (Add_entry c k v) \<noteq> [] \<and> hd (entries (Add_entry c k v)) = \<lparr>key = k, val = v\<rparr>"
proof -
  define d where "d = Add_entry c k v"
  from Add_entry_head [OF assms, of k v]
  have h: "ll d \<noteq> []" "key (elems d (hd (ll d))) = k" "val (elems d (hd (ll d))) = v"
    unfolding d_def by blast+
  from h(2,3) have "elems d (hd (ll d)) = \<lparr>key = k, val = v\<rparr>"
    by (cases "elems d (hd (ll d))") simp
  with h(1) show ?thesis unfolding d_def [symmetric] entries_def by (simp add: hd_map)
qed

lemma Add_evictions:
  assumes inv: "cache_inv c" and ws: "well_sized c" and ic: "in_contract c k v"
    and a: "Add c k v = Some c'"
  shows "\<exists>n\<le>Cache_Len (Add_entry c k v).
           c' = evictions n (Add_entry c k v) \<and>
           (\<forall>m<n. sint (maxBytes c) < resident_bytes (evictions m (Add_entry c k v)))"
proof -
  define d where "d = Add_entry c k v"
  define L where "L = length (ll d)"
  have i: "cache_inv d" unfolding d_def using inv by (rule cache_inv_Add_entry)
  have w: "well_sized d" unfolding d_def using ws ic by (rule well_sized_Add_entry)
  have m: "maxBytes d = maxBytes c" unfolding d_def by (rule Add_entry_maxBytes)
  from a have "evict d = Some c'" by (simp add: Add_def d_def)
  from evict_times [OF this] obtain n where n: "c' = (RemoveOldest ^^ n) d"
    "\<forall>j<n. maxBytes ((RemoveOldest ^^ j) d) \<noteq> 0 \<and>
            maxBytes ((RemoveOldest ^^ j) d) <s nbytes ((RemoveOldest ^^ j) d)"
    by blast
  define n' where "n' = min n L"
  have 1: "n' \<le> L" unfolding n'_def by simp
  have 2: "c' = (RemoveOldest ^^ n') d"
  proof (cases "n \<le> L")
    case True
    then show ?thesis unfolding n'_def n(1) by (simp add: min_absorb1)
  next
    case False
    then have "L \<le> n" by simp
    then have "(RemoveOldest ^^ n) d = (RemoveOldest ^^ L) d"
      unfolding L_def using i by (intro RemoveOldest_times_all)
    with False show ?thesis unfolding n'_def n(1) by (simp add: min_absorb2)
  qed
  have 3: "sint (maxBytes c) < resident_bytes ((RemoveOldest ^^ j) d)" if "j < n'" for j
  proof -
    define s where "s = (RemoveOldest ^^ j) d"
    from that have "j < n" unfolding n'_def by simp
    with n(2) have c: "maxBytes s <s nbytes s" unfolding s_def by blast
    from RemoveOldest_times [OF i, of j]
    have r: "cache_inv s" "ll s = take (length (ll d) - j) (ll d)" "elems s = elems d"
      "maxBytes s = maxBytes d"
      unfolding s_def by blast+
    from well_sized_take [OF w r(2,3)] have "well_sized s" by blast
    with r(1) have "sint (nbytes s) = resident_bytes s" by (rule sint_nbytes)
    with c show ?thesis unfolding s_def [symmetric] r(4) [symmetric] m [symmetric]
      by (simp add: word_sless_alt r(4))
  qed
  from 1 2 3 show ?thesis
    unfolding evictions_def Cache_Len_def d_def [symmetric] L_def [symmetric] by blast
qed

lemma Add_oversized:
  assumes inv: "cache_inv c" and ws: "well_sized c" and ic: "in_contract c k v"
    and nz: "maxBytes c \<noteq> 0" and big: "sint (maxBytes c) < int (length k) + sint (Len v)"
    and a: "Add c k v = Some c'"
  shows "c' = evictions (Cache_Len (Add_entry c k v)) (Add_entry c k v) \<and>
         entries (evictions (Cache_Len (Add_entry c k v) - 1) (Add_entry c k v))
           = [\<lparr>key = k, val = v\<rparr>] \<and>
         Cache_Len c' = 0 \<and> \<not> resident c' k"
proof -
  define d where "d = Add_entry c k v"
  define L where "L = length (ll d)"
  have i: "cache_inv d" unfolding d_def using inv by (rule cache_inv_Add_entry)
  from Add_contract [OF inv ws ic a] nz big have e: "ll c' = []" by blast
  from Add_evictions [OF inv ws ic a] obtain n where n: "n \<le> L" "c' = (RemoveOldest ^^ n) d"
    unfolding evictions_def Cache_Len_def d_def [symmetric] L_def [symmetric] by blast
  from entries_Add_entry_head [OF inv, of k v]
  have h: "entries d \<noteq> []" "hd (entries d) = \<lparr>key = k, val = v\<rparr>"
    unfolding d_def by blast+
  from h(1) have L1: "1 \<le> L" unfolding L_def entries_def by (cases "ll d") simp_all
  from RemoveOldest_times [OF i, of n] have "ll c' = take (L - n) (ll d)"
    unfolding n(2) L_def by blast
  with e L1 have "L - n = 0" unfolding L_def by (cases "ll d") auto
  with n(1) have nL: "n = L" by simp
  define s where "s = (RemoveOldest ^^ (L - 1)) d"
  from RemoveOldest_times [OF i, of "L - 1"]
  have "ll s = take (L - (L - 1)) (ll d)" "elems s = elems d"
    unfolding s_def L_def by blast+
  with L1 have "entries s = take 1 (entries d)"
    unfolding entries_def by (simp add: take_map)
  with h have 2: "entries s = [\<lparr>key = k, val = v\<rparr>]"
    by (cases "entries d") simp_all
  from e have 3: "Cache_Len c' = 0 \<and> \<not> resident c' k"
    by (simp add: Cache_Len_def resident_def order_keys_def)
  from n(2) nL 2 3 show ?thesis
    unfolding evictions_def Cache_Len_def d_def [symmetric] L_def [symmetric] s_def by blast
qed

lemma in_contract_cache_a: "in_contract (New 10 (Some log_eviction) []) ''a'' (Value ''x'' 4)"
  by (simp add: in_contract_def New_def Add_entry_def Let_def PushFront_def
      resident_bytes_def entry_size_def word_sle_eq)

lemma in_contract_cache_ab: "in_contract cache_a ''b'' (Value ''y'' 4)"
  by (simp add: in_contract_def cache_a_def Add_entry_def Let_def PushFront_def newElement_def
      resident_bytes_def entry_size_def word_sle_eq)

lemma reachable_contract_cache_ab: "reachable_by in_contract cache_ab"
proof -
  have "reachable_by in_contract (New 10 (Some log_eviction) [])" by (rule r_New)
  then have "reachable_by in_contract cache_a"
    using in_contract_cache_a Add_cache_a by (rule r_Add)
  then show ?thesis using in_contract_cache_ab Add_cache_ab by (rule r_Add)
qed

lemma Adds_in_contract_reach:
  assumes "Adds c kvs = Some c1" and "Adds_in_contract c (kvs @ others)"
    and "reachable_by in_contract c"
  shows "reachable_by in_contract c1 \<and> Adds_in_contract c1 others"
  using assms
proof (induction kvs arbitrary: c)
  case Nil
  then show ?case by simp
next
  case (Cons x xs)
  from Cons.prems(1) obtain c2 where a: "Add c (fst x) (snd x) = Some c2"
    and r: "Adds c2 xs = Some c1"
    by (auto split: option.splits)
  from Cons.prems(2) a have ic: "in_contract c (fst x) (snd x)"
    and tl: "Adds_in_contract c2 (xs @ others)"
    by simp_all
  from Cons.prems(3) ic a have "reachable_by in_contract c2" by (rule r_Add)
  with r tl show ?case by (rule Cons.IH)
qed

lemma Add_evictions_full:
  assumes inv: "cache_inv c" and ws: "well_sized c" and ic: "in_contract c k v"
    and a: "Add c k v = Some c'"
  shows "\<exists>n\<le>Cache_Len (Add_entry c k v).
           c' = evictions n (Add_entry c k v) \<and>
           (\<forall>m<n. sint (maxBytes c) < resident_bytes (evictions m (Add_entry c k v))) \<and>
           (maxBytes c \<noteq> 0 \<and> sint (maxBytes c) < int (length k) + sint (Len v) \<longrightarrow>
              n = Cache_Len (Add_entry c k v) \<and>
              entries (evictions (n - 1) (Add_entry c k v)) = [\<lparr>key = k, val = v\<rparr>] \<and>
              Cache_Len c' = 0 \<and> \<not> resident c' k)"
proof -
  define d where "d = Add_entry c k v"
  have i: "cache_inv d" unfolding d_def using inv by (rule cache_inv_Add_entry)
  from Add_evictions [OF inv ws ic a] obtain n where n: "n \<le> Cache_Len d"
    "c' = evictions n d" "\<forall>m<n. sint (maxBytes c) < resident_bytes (evictions m d)"
    unfolding d_def by blast
  have "n = Cache_Len d \<and> entries (evictions (n - 1) d) = [\<lparr>key = k, val = v\<rparr>] \<and>
      Cache_Len c' = 0 \<and> \<not> resident c' k"
    if "maxBytes c \<noteq> 0 \<and> sint (maxBytes c) < int (length k) + sint (Len v)"
  proof -
    from that have nz: "maxBytes c \<noteq> 0"
      and big: "sint (maxBytes c) < int (length k) + sint (Len v)" by blast+
    from Add_oversized [OF inv ws ic nz big a]
    have o: "entries (evictions (Cache_Len d - 1) d) = [\<lparr>key = k, val = v\<rparr>]"
      "Cache_Len c' = 0" "\<not> resident c' k"
      unfolding d_def by blast+
    from entries_Add_entry_head [OF inv, of k v] have "entries d \<noteq> []" unfolding d_def by blast
    then have ne: "ll d \<noteq> []" unfolding entries_def by simp
    from RemoveOldest_times [OF i, of n] have "ll c' = take (length (ll d) - n) (ll d)"
      unfolding n(2) evictions_def by blast
    with o(2) ne have "length (ll d) - n = 0"
      unfolding Cache_Len_def by (cases "ll d") auto
    with n(1) have "n = Cache_Len d" unfolding Cache_Len_def by simp
    with o show ?thesis by simp
  qed
  with n show ?thesis unfolding d_def by blast
qed

lemma Adds_maxBytes:
  "cache_inv c \<Longrightarrow> Adds c kvs = Some c' \<Longrightarrow> maxBytes c' = maxBytes c"
proof (induction kvs arbitrary: c)
  case Nil
  then show ?case by simp
next
  case (Cons x xs)
  from Cons.prems(2) obtain c2 where a: "Add c (fst x) (snd x) = Some c2"
    and r: "Adds c2 xs = Some c'"
    by (auto split: option.splits)
  from a Cons.prems(1) have "cache_inv c2" and m: "maxBytes c2 = maxBytes c"
    by (rule cache_inv_Add, rule Add_maxBytes)
  from this(1) r have "maxBytes c' = maxBytes c2" by (rule Cons.IH)
  with m show ?case by simp
qed

subsection \<open>A negative budget\<close>

lemma negative_budget_empty:
  assumes "reachable_by in_contract c"
  shows "maxBytes c <s 0 \<longrightarrow> ll c = []"
  using assms
proof (induction rule: reachable_by.induct)
  case (r_New mb onEvicted w)
  show ?case by (simp add: New_def)
next
  case (r_Get c k)
  from r_Get.hyps have inv: "cache_inv c" by (rule reachable_by_inv)
  show ?case
  proof
    assume "maxBytes (fst (Get c k)) <s 0"
    then have "maxBytes c <s 0" by (simp add: Get_maxBytes)
    with r_Get.IH have e: "ll c = []" by blast
    from inv have "dom (cache c) = set (order_keys c)" unfolding cache_inv_def by blast
    with e have "cache c k = None" by (auto simp: order_keys_def domIff)
    with e show "ll (fst (Get c k)) = []" by (simp add: Get_miss)
  qed
next
  case (r_RemoveOldest c)
  then show ?case by (simp add: RemoveOldest_maxBytes RemoveOldest_ll)
next
  case (r_Add c k v c')
  from r_Add.hyps(1) have inv: "cache_inv c" and ws: "well_sized c"
    by (rule reachable_by_inv, rule reachable_contract_sized)
  show ?case
  proof
    assume "maxBytes c' <s 0"
    with Add_maxBytes [OF r_Add.hyps(3) inv] have "maxBytes c <s 0" by simp
    with inv ws r_Add.hyps(2) have "Add c k v = None" by (rule Add_diverges)
    with r_Add.hyps(3) show "ll c' = []" by simp
  qed
qed

lemma Add_on_empty:
  assumes inv: "cache_inv c" and e: "ll c = []" and neg: "maxBytes c <s 0"
  shows "Add c k v =
         (if maxBytes c <s of_nat (length k) + Len v then None else Some (Add_entry c k v))"
proof -
  define d where "d = Add_entry c k v"
  from inv have "dom (cache c) = set (order_keys c)" unfolding cache_inv_def by blast
  with e have none: "cache c k = None" by (auto simp: order_keys_def domIff)
  from inv e have z: "nbytes c = 0" unfolding cache_inv_def by simp
  have f: "ll d = [newElement []]" "nbytes d = of_nat (length k) + Len v" "maxBytes d = maxBytes c"
    unfolding d_def Add_entry_insert [OF none] by (simp_all add: e z)
  have i: "cache_inv d" unfolding d_def using inv by (rule cache_inv_Add_entry)
  from neg have nz: "maxBytes d \<noteq> 0" unfolding f(3) by (auto simp: word_sless_alt)
  show ?thesis
  proof (cases "maxBytes c <s of_nat (length k) + Len v")
    case True
    then have "maxBytes d <s nbytes d" unfolding f .
    with nz have 1: "evict d = evict (RemoveOldest d)" by (rule evict_step)
    from i have i': "cache_inv (RemoveOldest d)" by (rule cache_inv_RemoveOldest)
    from i have "ll (RemoveOldest d) = []" by (simp add: RemoveOldest_ll_inv f)
    then have "well_sized (RemoveOldest d)" by (simp add: well_sized_def resident_bytes_def)
    with i' have "evict (RemoveOldest d) = None"
      using neg by (intro evict_diverges) (simp_all add: RemoveOldest_maxBytes f)
    with 1 True show ?thesis by (simp add: Add_def d_def)
  next
    case False
    then have "\<not> (maxBytes d \<noteq> 0 \<and> maxBytes d <s nbytes d)" unfolding f by simp
    then have "evict d = Some d" by (rule evict_stop)
    with False show ?thesis by (simp add: Add_def d_def)
  qed
qed

section \<open>Adding a key that is present\<close>

lemma Add_cache_k: "Add (New 5 None ()) ''k'' (Value ''v1'' 1) = Some cache_k"
  by (simp add: eval_simps cache_k_def)

lemma Add_within_budget:
  "\<not> (maxBytes c \<noteq> 0 \<and> maxBytes c <s nbytes (Add_entry c k v)) \<Longrightarrow>
   Add c k v = Some (Add_entry c k v)"
  unfolding Add_def by (rule evict_stop) (simp add: Add_entry_maxBytes)

lemma Add_twice:
  assumes "\<not> (mb \<noteq> 0 \<and> mb <s of_nat (length k) + Len v1)"
    and "\<not> (mb \<noteq> 0 \<and> mb <s of_nat (length k) + Len v2)"
  shows "\<exists>c1 c2. Add (New mb onEvicted w) k v1 = Some c1 \<and> Add c1 k v2 = Some c2 \<and>
           Cache_Len c2 = 1 \<and> order_keys c2 = [k] \<and>
           nbytes c2 = of_nat (length k) + Len v2 \<and> world c2 = w"
proof -
  define c0 where "c0 = New mb onEvicted w"
  define c1 where "c1 = Add_entry c0 k v1"
  define c2 where "c2 = Add_entry c1 k v2"
  have f1: "maxBytes c1 = mb" "nbytes c1 = of_nat (length k) + Len v1" "ll c1 = [Suc 0]"
    "cache c1 k = Some (Suc 0)" "elems c1 (Suc 0) = \<lparr>key = k, val = v1\<rparr>" "world c1 = w"
    by (simp_all add: c1_def c0_def New_def Add_entry_def Let_def PushFront_def newElement_def)
  have m0: "maxBytes c0 = mb" by (simp add: c0_def New_def)
  have "\<not> (maxBytes c0 \<noteq> 0 \<and> maxBytes c0 <s nbytes c1)"
    unfolding m0 f1(2) by (rule assms(1))
  then have a1: "Add c0 k v1 = Some c1"
    unfolding c1_def by (rule Add_within_budget)
  have u: "c2 = c1\<lparr>ll := MoveToFront (Suc 0) (ll c1),
       nbytes := nbytes c1 + (Len v2 - Len (val (elems c1 (Suc 0)))),
       elems := (elems c1)(Suc 0 := (elems c1 (Suc 0))\<lparr>val := v2\<rparr>)\<rparr>"
    unfolding c2_def using f1(4) by (rule Add_entry_update)
  have f2: "maxBytes c2 = mb" "nbytes c2 = of_nat (length k) + Len v2" "ll c2 = [Suc 0]"
    "key (elems c2 (Suc 0)) = k" "world c2 = w"
    unfolding u by (simp_all add: f1 MoveToFront_def)
  have "\<not> (maxBytes c1 \<noteq> 0 \<and> maxBytes c1 <s nbytes c2)"
    unfolding f1(1) f2(2) by (rule assms(2))
  then have a2: "Add c1 k v2 = Some c2"
    unfolding c2_def by (rule Add_within_budget)
  have "Cache_Len c2 = 1" "order_keys c2 = [k]"
    by (simp_all add: Cache_Len_def order_keys_def f2)
  with a1 a2 f2 show ?thesis unfolding c0_def by blast
qed

section \<open>Recency\<close>

subsection \<open>One key before another in the order\<close>









subsection \<open>What a call does to the order of the keys\<close>









subsection \<open>Three keys and a budget for two\<close>




section \<open>The claims of the specification\<close>

text \<open>
  Claim C1, as the code has it. Take a cache made with \<open>maxBytes \<noteq> 0\<close> and any sequence of
  \<^verbatim>\<open>Add\<close> calls that keep the contract of \<^verbatim>\<open>Value\<close>: no \<^verbatim>\<open>Len()\<close> is negative, and the sizes
  resident after each insertion sum to less than \<open>2^63\<close>. After each \<^verbatim>\<open>Add\<close> that returns, the
  sum of key length plus value size over the resident entries is at most \<open>maxBytes\<close>. The
  \<^verbatim>\<open>Add\<close> has put its entry at the front of the order and then called \<^verbatim>\<open>RemoveOldest\<close> \<open>n\<close>
  times, each time with the resident sum above \<open>maxBytes\<close>. When the entry just added is
  larger than \<open>maxBytes\<close> by itself, \<open>n\<close> is the number of entries: before the last call the new
  entry is the only one left, the loop evicts it too, and the cache has no entry.
\<close>

theorem C1_capacity_amended:
  assumes "mb \<noteq> 0"
    and "Adds_in_contract (New mb onEvicted w) (kvs @ [(k, v)])"
    and "Adds (New mb onEvicted w) (kvs @ [(k, v)]) = Some c'"
  shows "resident_bytes c' \<le> sint mb \<and>
         sint (nbytes c') = resident_bytes c' \<and>
         (\<exists>c n. Adds (New mb onEvicted w) kvs = Some c \<and>
            order_keys (Add_entry c k v) = touch k (order_keys c) \<and>
            hd (entries (Add_entry c k v)) = \<lparr>key = k, val = v\<rparr> \<and>
            n \<le> Cache_Len (Add_entry c k v) \<and>
            c' = evictions n (Add_entry c k v) \<and>
            (\<forall>m<n. sint mb < resident_bytes (evictions m (Add_entry c k v))) \<and>
            (sint mb < int (length k) + sint (Len v) \<longrightarrow>
               n = Cache_Len (Add_entry c k v) \<and>
               entries (evictions (n - 1) (Add_entry c k v)) = [\<lparr>key = k, val = v\<rparr>] \<and>
               Cache_Len c' = 0))"
proof -
  define c0 where "c0 = New mb onEvicted w"
  have r0: "reachable_by in_contract c0" unfolding c0_def by (rule r_New)
  have m0: "maxBytes c0 = mb" by (simp add: c0_def New_def)
  from assms(3) obtain c where p: "Adds c0 kvs = Some c" and a: "Add c k v = Some c'"
    unfolding Adds_snoc c0_def by (auto split: option.splits)
  from Adds_in_contract_reach [OF p assms(2) [folded c0_def] r0]
  have rc: "reachable_by in_contract c" and "Adds_in_contract c [(k, v)]" by blast+
  then have ic: "in_contract c k v" by simp
  from rc have inv: "cache_inv c" and ws: "well_sized c"
    by (rule reachable_by_inv, rule reachable_contract_sized)
  from r0 have "cache_inv c0" by (rule reachable_by_inv)
  then have "maxBytes c = maxBytes c0" using p by (rule Adds_maxBytes)
  then have mc: "maxBytes c = mb" unfolding m0 .
  from Add_contract [OF inv ws ic a] assms(1)
  have r: "cache_inv c'" "well_sized c'" "resident_bytes c' \<le> sint mb"
    unfolding mc by blast+
  from r(1,2) have s: "sint (nbytes c') = resident_bytes c'" by (rule sint_nbytes)
  have o: "order_keys (Add_entry c k v) = touch k (order_keys c)"
    using inv by (rule order_keys_Add_entry)
  from entries_Add_entry_head [OF inv, of k v]
  have h: "hd (entries (Add_entry c k v)) = \<lparr>key = k, val = v\<rparr>" by blast
  from Add_evictions_full [OF inv ws ic a] assms(1) obtain n
    where n: "n \<le> Cache_Len (Add_entry c k v)" "c' = evictions n (Add_entry c k v)"
      "\<forall>m<n. sint mb < resident_bytes (evictions m (Add_entry c k v))"
      "sint mb < int (length k) + sint (Len v) \<longrightarrow>
         n = Cache_Len (Add_entry c k v) \<and>
         entries (evictions (n - 1) (Add_entry c k v)) = [\<lparr>key = k, val = v\<rparr>] \<and>
         Cache_Len c' = 0"
    unfolding mc by blast
  from p o h n have "\<exists>c n. Adds c0 kvs = Some c \<and>
            order_keys (Add_entry c k v) = touch k (order_keys c) \<and>
            hd (entries (Add_entry c k v)) = \<lparr>key = k, val = v\<rparr> \<and>
            n \<le> Cache_Len (Add_entry c k v) \<and>
            c' = evictions n (Add_entry c k v) \<and>
            (\<forall>m<n. sint mb < resident_bytes (evictions m (Add_entry c k v))) \<and>
            (sint mb < int (length k) + sint (Len v) \<longrightarrow>
               n = Cache_Len (Add_entry c k v) \<and>
               entries (evictions (n - 1) (Add_entry c k v)) = [\<lparr>key = k, val = v\<rparr>] \<and>
               Cache_Len c' = 0)"
    by blast
  with r(3) s show ?thesis unfolding c0_def by blast
qed

theorem C1_capacity_amended_witness:
  "(10 :: int64) \<noteq> 0 \<and>
   Adds_in_contract (New 10 (Some log_eviction) [])
     ([(''a'', Value ''x'' 4)] @ [(''b'', Value ''y'' 100)]) \<and>
   sint (10 :: int64) < int (length ''b'') + sint (Len (Value ''y'' 100)) \<and>
   (\<exists>c'. Adds (New 10 (Some log_eviction) [])
            ([(''a'', Value ''x'' 4)] @ [(''b'', Value ''y'' 100)]) = Some c' \<and>
         resident_bytes c' \<le> 10 \<and> Cache_Len c' = 0 \<and>
         c' = evictions 2 (Add_entry cache_a ''b'' (Value ''y'' 100)))"
proof -
  define kvs :: "(string \<times> Value) list" where "kvs = [(''a'', Value ''x'' 4)]"
  have 1: "(10 :: int64) \<noteq> 0" by simp
  have nn: "Add cache_a ''b'' (Value ''y'' 100) \<noteq> None"
    by (simp add: eval_simps cache_a_def)
  have ic: "in_contract cache_a ''b'' (Value ''y'' 100)"
    by (simp add: in_contract_def cache_a_def Add_entry_def Let_def PushFront_def newElement_def
        resident_bytes_def entry_size_def word_sle_eq)
  have 2: "Adds_in_contract (New 10 (Some log_eviction) []) (kvs @ [(''b'', Value ''y'' 100)])"
    using ic by (simp add: kvs_def in_contract_cache_a Add_cache_a split: option.split)
  have 3: "sint (10 :: int64) < int (length ''b'') + sint (Len (Value ''y'' 100))" by simp
  from nn have "Adds (New 10 (Some log_eviction) []) (kvs @ [(''b'', Value ''y'' 100)]) \<noteq> None"
    by (simp add: kvs_def Add_cache_a split: option.split)
  then obtain c' where 4: "Adds (New 10 (Some log_eviction) []) (kvs @ [(''b'', Value ''y'' 100)]) = Some c'"
    by blast
  have p: "Adds (New 10 (Some log_eviction) []) kvs = Some cache_a"
    by (simp add: kvs_def Add_cache_a)
  have L: "Cache_Len (Add_entry cache_a ''b'' (Value ''y'' 100)) = 2"
    by (simp add: Cache_Len_def cache_a_def Add_entry_def Let_def PushFront_def)
  from C1_capacity_amended [OF 1 2 4] 3 obtain c n
    where r: "resident_bytes c' \<le> sint (10 :: int64)"
      "Adds (New 10 (Some log_eviction) []) kvs = Some c"
      "c' = evictions n (Add_entry c ''b'' (Value ''y'' 100))"
      "n = Cache_Len (Add_entry c ''b'' (Value ''y'' 100))" "Cache_Len c' = 0"
    by blast
  from r(2) p have c: "c = cache_a" by simp
  from r(3,4) have "c' = evictions 2 (Add_entry cache_a ''b'' (Value ''y'' 100))"
    unfolding c L by simp
  moreover from r(1) have "resident_bytes c' \<le> 10" by simp
  ultimately have "\<exists>c'. Adds (New 10 (Some log_eviction) []) (kvs @ [(''b'', Value ''y'' 100)]) = Some c' \<and>
         resident_bytes c' \<le> 10 \<and> Cache_Len c' = 0 \<and>
         c' = evictions 2 (Add_entry cache_a ''b'' (Value ''y'' 100))"
    using 4 r(5) by blast
  with 1 2 3 show ?thesis unfolding kvs_def by blast
qed

text \<open>
  The claim as it is written fails outside that contract. A cache with a budget of 10
  bytes gets the key \<open>a\<close> with a value whose \<^verbatim>\<open>Len()\<close> is the largest \<^verbatim>\<open>int64\<close>: the byte count
  wraps to a negative number, nothing is evicted, and the cache holds one entry of far
  more than 10 bytes. And after \<^verbatim>\<open>Add("a", x)\<close> with \<^verbatim>\<open>x.Len() = -3\<close> and \<^verbatim>\<open>Add("b", y)\<close> with
  \<^verbatim>\<open>y.Len() = 11\<close> the entry of \<open>b\<close> is larger than the budget by itself, and the cache holds
  two entries.
\<close>

theorem C1_counterexample:
  "(10 :: int64) \<noteq> 0 \<and>
   Add (New 10 None ()) ''a'' (Value ''x'' 9223372036854775807) \<noteq> None \<and>
   Cache_Len (the (Add (New 10 None ()) ''a'' (Value ''x'' 9223372036854775807))) = 1 \<and>
   sint (10 :: int64)
     < resident_bytes (the (Add (New 10 None ()) ''a'' (Value ''x'' 9223372036854775807))) \<and>
   Adds (New 10 None ()) [(''a'', Value ''x'' (- 3)), (''b'', Value ''y'' 11)] \<noteq> None \<and>
   sint (10 :: int64) < int (length ''b'') + sint (Len (Value ''y'' 11)) \<and>
   Cache_Len (the (Adds (New 10 None ()) [(''a'', Value ''x'' (- 3)), (''b'', Value ''y'' 11)])) = 2"
  by (simp add: eval_simps resident_bytes_def entry_size_def)

text \<open>
  Claim C2, as the code has it. In a cache made with \<open>maxBytes > 0\<close> and used within the
  contract of \<^verbatim>\<open>Value\<close>, the byte count is at most \<open>maxBytes\<close> after every operation, and
  every \<^verbatim>\<open>Add\<close> returns. An entry that is larger than \<open>maxBytes\<close> by itself is not kept: the
  \<^verbatim>\<open>Add\<close> that inserts it puts it at the front of the order, then calls \<^verbatim>\<open>RemoveOldest\<close> once
  for every entry, so that before the last of these calls the new entry is the only one
  left, and returns with an empty cache.
\<close>

theorem C2_budget_amended:
  assumes "reachable_by in_contract c" and "0 <s maxBytes c"
  shows "nbytes c \<le>s maxBytes c \<and>
         resident_bytes c \<le> sint (maxBytes c) \<and>
         (\<exists>c'. Add c k v = Some c') \<and>
         (in_contract c k v \<and> sint (maxBytes c) < int (length k) + sint (Len v) \<longrightarrow>
            Add c k v = Some (evictions (Cache_Len (Add_entry c k v)) (Add_entry c k v)) \<and>
            order_keys (Add_entry c k v) = touch k (order_keys c) \<and>
            hd (entries (Add_entry c k v)) = \<lparr>key = k, val = v\<rparr> \<and>
            entries (evictions (Cache_Len (Add_entry c k v) - 1) (Add_entry c k v))
              = [\<lparr>key = k, val = v\<rparr>] \<and>
            Cache_Len (evictions (Cache_Len (Add_entry c k v)) (Add_entry c k v)) = 0 \<and>
            \<not> resident (evictions (Cache_Len (Add_entry c k v)) (Add_entry c k v)) k)"
proof -
  from assms(1) have inv: "cache_inv c" and ws: "well_sized c"
    by (rule reachable_by_inv, rule reachable_contract_sized)
  from reachable_contract_budget [OF assms(1)] assms(2)
  have b: "resident_bytes c \<le> sint (maxBytes c)" by blast
  from inv ws have "sint (nbytes c) = resident_bytes c" by (rule sint_nbytes)
  with b have n: "nbytes c \<le>s maxBytes c" by (simp add: word_sle_eq)
  from assms(2) have nz: "maxBytes c \<noteq> 0" and nn: "0 \<le>s maxBytes c"
    by (auto simp: word_sless_alt word_sle_eq)
  from inv nn have t: "\<exists>c'. Add c k v = Some c'" by (rule Add_terminates)
  have o: "Add c k v = Some (evictions (Cache_Len (Add_entry c k v)) (Add_entry c k v)) \<and>
      order_keys (Add_entry c k v) = touch k (order_keys c) \<and>
      hd (entries (Add_entry c k v)) = \<lparr>key = k, val = v\<rparr> \<and>
      entries (evictions (Cache_Len (Add_entry c k v) - 1) (Add_entry c k v))
        = [\<lparr>key = k, val = v\<rparr>] \<and>
      Cache_Len (evictions (Cache_Len (Add_entry c k v)) (Add_entry c k v)) = 0 \<and>
      \<not> resident (evictions (Cache_Len (Add_entry c k v)) (Add_entry c k v)) k"
    if "in_contract c k v \<and> sint (maxBytes c) < int (length k) + sint (Len v)"
  proof -
    from that have ic: "in_contract c k v"
      and big: "sint (maxBytes c) < int (length k) + sint (Len v)"
      by blast+
    from t obtain c' where a: "Add c k v = Some c'" ..
    from Add_oversized [OF inv ws ic nz big a]
    have r: "c' = evictions (Cache_Len (Add_entry c k v)) (Add_entry c k v)"
      "entries (evictions (Cache_Len (Add_entry c k v) - 1) (Add_entry c k v))
        = [\<lparr>key = k, val = v\<rparr>]"
      "Cache_Len c' = 0" "\<not> resident c' k"
      by blast+
    have k: "order_keys (Add_entry c k v) = touch k (order_keys c)"
      using inv by (rule order_keys_Add_entry)
    from entries_Add_entry_head [OF inv, of k v]
    have h: "hd (entries (Add_entry c k v)) = \<lparr>key = k, val = v\<rparr>" by blast
    from a r(2,3,4) k h show ?thesis unfolding r(1) by blast
  qed
  from n b t o show ?thesis by blast
qed

theorem C2_budget_amended_witness:
  "reachable_by in_contract cache_ab \<and> 0 <s maxBytes cache_ab \<and>
   in_contract cache_ab ''c'' (Value ''z'' 100) \<and>
   sint (maxBytes cache_ab) < int (length ''c'') + sint (Len (Value ''z'' 100)) \<and>
   nbytes cache_ab \<le>s maxBytes cache_ab \<and>
   Cache_Len (Add_entry cache_ab ''c'' (Value ''z'' 100)) = 3 \<and>
   Add cache_ab ''c'' (Value ''z'' 100)
     = Some (evictions 3 (Add_entry cache_ab ''c'' (Value ''z'' 100))) \<and>
   entries (evictions 2 (Add_entry cache_ab ''c'' (Value ''z'' 100)))
     = [\<lparr>key = ''c'', val = Value ''z'' 100\<rparr>] \<and>
   Cache_Len (evictions 3 (Add_entry cache_ab ''c'' (Value ''z'' 100))) = 0 \<and>
   world (evictions 3 (Add_entry cache_ab ''c'' (Value ''z'' 100)))
     = [(''a'', Value ''x'' 4, 2, 106), (''b'', Value ''y'' 4, 1, 101),
        (''c'', Value ''z'' 100, 0, 0)]"
proof -
  define d where "d = Add_entry cache_ab ''c'' (Value ''z'' 100)"
  have 1: "reachable_by in_contract cache_ab" by (rule reachable_contract_cache_ab)
  have 2: "0 <s maxBytes cache_ab" by (simp add: cache_ab_def word_sless_alt)
  have 3: "in_contract cache_ab ''c'' (Value ''z'' 100) \<and>
      sint (maxBytes cache_ab) < int (length ''c'') + sint (Len (Value ''z'' 100))"
    by (simp add: in_contract_def cache_ab_def Add_entry_def Let_def PushFront_def newElement_def
        resident_bytes_def entry_size_def word_sle_eq)
  have L: "Cache_Len d = 3"
    by (simp add: d_def Cache_Len_def cache_ab_def Add_entry_def Let_def PushFront_def)
  from C2_budget_amended [OF 1 2, of "''c''" "Value ''z'' 100"] 3
  have r: "nbytes cache_ab \<le>s maxBytes cache_ab"
    "Add cache_ab ''c'' (Value ''z'' 100) = Some (evictions (Cache_Len d) d)"
    "entries (evictions (Cache_Len d - 1) d) = [\<lparr>key = ''c'', val = Value ''z'' 100\<rparr>]"
    "Cache_Len (evictions (Cache_Len d) d) = 0"
    unfolding d_def by blast+
  have w: "world (evictions 3 d)
     = [(''a'', Value ''x'' 4, 2, 106), (''b'', Value ''y'' 4, 1, 101),
        (''c'', Value ''z'' 100, 0, 0)]"
    by (simp add: d_def evictions_def eval_nat_numeral cache_ab_def Add_entry_def Let_def
        PushFront_def newElement_def RemoveOldest_def Back_def Remove_def entry_bytes_def
        log_eviction_def store.truncate_def)
  from r L have r': "Add cache_ab ''c'' (Value ''z'' 100) = Some (evictions 3 d)"
    "entries (evictions 2 d) = [\<lparr>key = ''c'', val = Value ''z'' 100\<rparr>]"
    "Cache_Len (evictions 3 d) = 0"
    by simp_all
  from 1 2 3 r(1) L r' w show ?thesis unfolding d_def by blast
qed

text \<open>
  The claim as it is written fails. A cache with a budget of 5 bytes gets the key \<open>a\<close> with
  a value of 10 bytes: \<^verbatim>\<open>Add\<close> returns, no entry is left, and the callback has been called
  for \<open>a\<close> itself, on a cache with no entry and no byte. And a cache made with
  \<open>maxBytes = -5\<close> has, after a \<^verbatim>\<open>Get\<close>, a byte count above \<open>maxBytes\<close> and no entry at all.
\<close>

theorem C2_counterexample:
  "maxBytes (New 5 (Some log_eviction) []) \<noteq> 0 \<and>
   Add (New 5 (Some log_eviction) []) ''a'' (Value ''x'' 10) \<noteq> None \<and>
   Cache_Len (the (Add (New 5 (Some log_eviction) []) ''a'' (Value ''x'' 10))) = 0 \<and>
   world (the (Add (New 5 (Some log_eviction) []) ''a'' (Value ''x'' 10)))
     = [(''a'', Value ''x'' 10, 0, 0)] \<and>
   maxBytes (New (- 5) None ()) \<noteq> 0 \<and>
   \<not> nbytes (fst (Get (New (- 5) None ()) ''a'')) \<le>s maxBytes (fst (Get (New (- 5) None ()) ''a'')) \<and>
   Cache_Len (fst (Get (New (- 5) None ()) ''a'')) = 0"
  by (simp add: eval_simps log_eviction_def store.truncate_def word_sle_eq)

text \<open>
  Claim C3, as the code has it. In a cache made with \<open>maxBytes \<ge> 0\<close> every \<^verbatim>\<open>Add\<close> returns. A
  cache made with a negative \<open>maxBytes\<close> and used within the contract of \<^verbatim>\<open>Value\<close> (\<^verbatim>\<open>Len()\<close>
  not negative, sizes within \<^verbatim>\<open>int64\<close>) never gets an entry, because no \<^verbatim>\<open>Add\<close> returns: the
  loop evicts every entry, and on the empty cache the byte count is 0, \<^verbatim>\<open>RemoveOldest\<close>
  changes nothing and the loop goes on. On an empty cache with a negative \<open>maxBytes\<close> an
  \<^verbatim>\<open>Add\<close> does not return exactly when \<open>maxBytes\<close> is below the new entry's bytes as \<^verbatim>\<open>int64\<close>;
  otherwise it returns at once and keeps the entry.
\<close>

theorem C3_Add_termination_amended:
  "(reachable c \<and> 0 \<le>s maxBytes c \<longrightarrow> (\<exists>c'. Add c k v = Some c')) \<and>
   (reachable_by in_contract c \<and> maxBytes c <s 0 \<and> in_contract c k v \<longrightarrow>
      ll c = [] \<and> Add c k v = None) \<and>
   (reachable c \<and> maxBytes c <s 0 \<and> ll c = [] \<longrightarrow>
      nbytes c = 0 \<and> RemoveOldest c = c \<and> evict c = None \<and>
      Add c k v =
        (if maxBytes c <s of_nat (length k) + Len v then None else Some (Add_entry c k v)))"
proof (intro conjI impI)
  assume "reachable c \<and> 0 \<le>s maxBytes c"
  then have "cache_inv c" and "0 \<le>s maxBytes c" by (simp_all add: reachable_inv)
  then show "\<exists>c'. Add c k v = Some c'" by (rule Add_terminates)
next
  assume a: "reachable_by in_contract c \<and> maxBytes c <s 0 \<and> in_contract c k v"
  then have r: "reachable_by in_contract c" and n: "maxBytes c <s 0" by blast+
  from negative_budget_empty [OF r] n show "ll c = []" by blast
  from r have "cache_inv c" by (rule reachable_by_inv)
  moreover from r have "well_sized c" by (rule reachable_contract_sized)
  ultimately show "Add c k v = None" using a by (intro Add_diverges) simp_all
next
  assume a: "reachable c \<and> maxBytes c <s 0 \<and> ll c = []"
  then have inv: "cache_inv c" and e: "ll c = []" and n: "maxBytes c <s 0"
    by (simp_all add: reachable_inv)
  from inv e show "nbytes c = 0" unfolding cache_inv_def by simp
  from e show "RemoveOldest c = c" by (rule RemoveOldest_empty)
  from e have "well_sized c" by (simp add: well_sized_def resident_bytes_def)
  with inv show "evict c = None" using n by (rule evict_diverges)
  from inv e n show "Add c k v =
      (if maxBytes c <s of_nat (length k) + Len v then None else Some (Add_entry c k v))"
    by (rule Add_on_empty)
qed

theorem C3_Add_termination_amended_witness:
  "reachable cache_ab \<and> 0 \<le>s maxBytes cache_ab \<and>
   (\<exists>c'. Add cache_ab ''c'' (Value ''z'' 4) = Some c') \<and>
   reachable_by in_contract (New (- 5) None ()) \<and> maxBytes (New (- 5) None ()) <s 0 \<and>
   in_contract (New (- 5) None ()) ''a'' (Value ''x'' 4) \<and>
   Add (New (- 5) None ()) ''a'' (Value ''x'' 4) = None \<and>
   reachable (New (- 5) None ()) \<and> ll (New (- 5) None ()) = [] \<and>
   evict (New (- 5) None ()) = None \<and>
   Add (New (- 5) None ()) ''a'' (Value ''x'' (- 10))
     = Some (Add_entry (New (- 5) None ()) ''a'' (Value ''x'' (- 10)))"
proof -
  have "0 \<le>s maxBytes cache_ab" by (simp add: cache_ab_def word_sle_eq)
  with reachable_cache_ab have 1: "reachable cache_ab \<and> 0 \<le>s maxBytes cache_ab" ..
  have "maxBytes (New (- 5) None ()) <s 0 \<and> in_contract (New (- 5) None ()) ''a'' (Value ''x'' 4)"
    by (simp add: in_contract_def New_def Add_entry_def Let_def PushFront_def
        resident_bytes_def entry_size_def word_sle_eq word_sless_alt)
  with r_New [of in_contract "- 5" None "()"]
  have 2: "reachable_by in_contract (New (- 5) None ()) \<and> maxBytes (New (- 5) None ()) <s 0 \<and>
      in_contract (New (- 5) None ()) ''a'' (Value ''x'' 4)" ..
  have "maxBytes (New (- 5) None ()) <s 0 \<and> ll (New (- 5) None ()) = []"
    by (simp add: New_def word_sless_alt)
  with reachable_New [of "- 5" None "()"]
  have 3: "reachable (New (- 5) None ()) \<and> maxBytes (New (- 5) None ()) <s 0 \<and>
      ll (New (- 5) None ()) = []" ..
  from 1 C3_Add_termination_amended [of cache_ab "''c''" "Value ''z'' 4"]
  have "\<exists>c'. Add cache_ab ''c'' (Value ''z'' 4) = Some c'" by blast
  moreover from 2 C3_Add_termination_amended [of "New (- 5) None ()" "''a''" "Value ''x'' 4"]
  have "Add (New (- 5) None ()) ''a'' (Value ''x'' 4) = None" by blast
  moreover from 3 C3_Add_termination_amended [of "New (- 5) None ()" "''a''" "Value ''x'' 4"]
  have "evict (New (- 5) None ()) = None" by blast
  moreover have "\<not> maxBytes (New (- 5) None ()) <s of_nat (length ''a'') + Len (Value ''x'' (- 10))"
    by (simp add: New_def word_sless_alt)
  with 3 C3_Add_termination_amended [of "New (- 5) None ()" "''a''" "Value ''x'' (- 10)"]
  have "Add (New (- 5) None ()) ''a'' (Value ''x'' (- 10))
     = Some (Add_entry (New (- 5) None ()) ''a'' (Value ''x'' (- 10)))"
    by simp
  ultimately show ?thesis using 1 2 3 by blast
qed

text \<open>
  The claim as it is written fails for values outside that contract. In a cache made
  with \<open>maxBytes = -5\<close>, \<^verbatim>\<open>Add("a", x)\<close> returns and keeps the entry both when \<^verbatim>\<open>x.Len()\<close> is -10
  and when it is the largest \<^verbatim>\<open>int64\<close>, where the byte count wraps to a negative number.
\<close>

theorem C3_counterexample:
  "maxBytes (New (- 5) None ()) <s 0 \<and>
   Add (New (- 5) None ()) ''a'' (Value ''x'' (- 10)) \<noteq> None \<and>
   Cache_Len (the (Add (New (- 5) None ()) ''a'' (Value ''x'' (- 10)))) = 1 \<and>
   Add (New (- 5) None ()) ''a'' (Value ''x'' 9223372036854775807) \<noteq> None \<and>
   Cache_Len (the (Add (New (- 5) None ()) ''a'' (Value ''x'' 9223372036854775807))) = 1"
  by (simp add: eval_simps)





text \<open>
  Claim C6. On a cache without entries \<^verbatim>\<open>RemoveOldest\<close> changes nothing. Otherwise it takes
  the last element off the recency order, deletes that entry's key from the index,
  subtracts the entry's bytes from the byte count and, if there is a callback, calls it
  once with the key and the value of that entry: the world outside becomes what one call
  makes of it, and the cache the callback sees is the cache as \<^verbatim>\<open>RemoveOldest\<close> leaves it,
  with the entry gone and the byte count updated.
\<close>

theorem C6_RemoveOldest:
  assumes "reachable c"
  shows "(ll c = [] \<longrightarrow> RemoveOldest c = c) \<and>
         (ll c \<noteq> [] \<longrightarrow>
            ll (RemoveOldest c) = butlast (ll c) \<and>
            order_keys (RemoveOldest c) = butlast (order_keys c) \<and>
            cache (RemoveOldest c) = (cache c)(last (order_keys c) := None) \<and>
            \<not> resident (RemoveOldest c) (last (order_keys c)) \<and>
            nbytes (RemoveOldest c) = nbytes c - entry_bytes (elems c (last (ll c))) \<and>
            elems (RemoveOldest c) = elems c \<and>
            maxBytes (RemoveOldest c) = maxBytes c \<and>
            OnEvicted (RemoveOldest c) = OnEvicted c \<and>
            world (RemoveOldest c) =
              (case OnEvicted c of
                 None \<Rightarrow> world c
               | Some f \<Rightarrow> f (store.truncate (RemoveOldest c)) (last (order_keys c))
                            (val (elems c (last (ll c)))) (world c)))"
proof (intro conjI impI)
  assume "ll c = []"
  then show "RemoveOldest c = c" by (rule RemoveOldest_empty)
next
  assume ne: "ll c \<noteq> []"
  from assms have inv: "cache_inv c" by (rule reachable_inv)
  have lk: "last (order_keys c) = key (elems c (last (ll c)))"
    using ne by (simp add: order_keys_def last_map)
  show l: "ll (RemoveOldest c) = butlast (ll c)"
    using inv by (rule RemoveOldest_ll_inv)
  show o: "order_keys (RemoveOldest c) = butlast (order_keys c)"
    by (simp add: order_keys_def l RemoveOldest_elems map_butlast)
  show "cache (RemoveOldest c) = (cache c)(last (order_keys c) := None)"
    unfolding lk using ne by (rule RemoveOldest_cache)
  from inv have d: "distinct (order_keys c)" by (rule cache_inv_keys_distinct)
  from ne have "order_keys c = butlast (order_keys c) @ [last (order_keys c)]"
    by (simp add: order_keys_def)
  with d have "distinct (butlast (order_keys c) @ [last (order_keys c)])" by simp
  then have "last (order_keys c) \<notin> set (butlast (order_keys c))" by simp
  then show "\<not> resident (RemoveOldest c) (last (order_keys c))"
    unfolding resident_def o .
  show "nbytes (RemoveOldest c) = nbytes c - entry_bytes (elems c (last (ll c)))"
    using ne by (rule RemoveOldest_nbytes)
  show "elems (RemoveOldest c) = elems c" by (rule RemoveOldest_elems)
  show "maxBytes (RemoveOldest c) = maxBytes c" by (rule RemoveOldest_maxBytes)
  show "OnEvicted (RemoveOldest c) = OnEvicted c" by (rule RemoveOldest_OnEvicted)
  show "world (RemoveOldest c) =
      (case OnEvicted c of
         None \<Rightarrow> world c
       | Some f \<Rightarrow> f (store.truncate (RemoveOldest c)) (last (order_keys c))
                    (val (elems c (last (ll c)))) (world c))"
    unfolding lk using ne by (rule RemoveOldest_world)
qed

theorem C6_RemoveOldest_witness:
  "reachable cache_ab \<and> ll cache_ab \<noteq> [] \<and>
   order_keys (RemoveOldest cache_ab) = [''b''] \<and>
   cache (RemoveOldest cache_ab) = [''b'' \<mapsto> 2] \<and>
   nbytes (RemoveOldest cache_ab) = 5 \<and>
   world (RemoveOldest cache_ab) = [(''a'', Value ''x'' 4, 1, 5)]"
proof -
  have l: "ll cache_ab = [2, 1]" "elems cache_ab 1 = \<lparr>key = ''a'', val = Value ''x'' 4\<rparr>"
    "order_keys cache_ab = [''b'', ''a'']" "nbytes cache_ab = 10" "world cache_ab = []"
    "OnEvicted cache_ab = Some log_eviction" "cache cache_ab = [''a'' \<mapsto> 1, ''b'' \<mapsto> 2]"
    by (simp_all add: cache_ab_def order_keys_def)
  have ne: "ll cache_ab \<noteq> []" by (simp add: l)
  from C6_RemoveOldest [OF reachable_cache_ab] ne
  have r: "ll (RemoveOldest cache_ab) = butlast (ll cache_ab)"
    "order_keys (RemoveOldest cache_ab) = butlast (order_keys cache_ab)"
    "cache (RemoveOldest cache_ab) = (cache cache_ab)(last (order_keys cache_ab) := None)"
    "nbytes (RemoveOldest cache_ab) = nbytes cache_ab - entry_bytes (elems cache_ab (last (ll cache_ab)))"
    "world (RemoveOldest cache_ab) =
       (case OnEvicted cache_ab of
          None \<Rightarrow> world cache_ab
        | Some f \<Rightarrow> f (store.truncate (RemoveOldest cache_ab)) (last (order_keys cache_ab))
                     (val (elems cache_ab (last (ll cache_ab)))) (world cache_ab))"
    by blast+
  have n: "nbytes (RemoveOldest cache_ab) = 5"
    unfolding r(4) by (simp add: entry_bytes_def cache_ab_def)
  have t: "ll (store.truncate (RemoveOldest cache_ab)) = ll (RemoveOldest cache_ab)"
    "nbytes (store.truncate (RemoveOldest cache_ab)) = nbytes (RemoveOldest cache_ab)"
    by (simp_all add: store.truncate_def)
  have lw: "length (ll (RemoveOldest cache_ab)) = 1"
    unfolding r(1) by (simp add: cache_ab_def)
  have kv: "last (order_keys cache_ab) = ''a''"
    "val (elems cache_ab (last (ll cache_ab))) = Value ''x'' 4"
    "OnEvicted cache_ab = Some log_eviction" "world cache_ab = []"
    by (simp_all add: cache_ab_def order_keys_def)
  have w: "world (RemoveOldest cache_ab) = [(''a'', Value ''x'' 4, 1, 5)]"
    unfolding r(5) kv by (simp add: log_eviction_def t lw n)
  have c: "cache (RemoveOldest cache_ab) = [''b'' \<mapsto> 2]"
    unfolding r(3) l by (simp add: fun_upd_twist)
  from reachable_cache_ab ne r(2) c n w show ?thesis by (simp add: l)
qed

text \<open>
  Claim C7, as the code has it. When the key is in the index, \<^verbatim>\<open>Add\<close> first puts the new
  value into the entry of the key, adds the difference of the two \<^verbatim>\<open>Len()\<close> to the byte
  count and moves the entry to the front; up to here the number of entries is unchanged.
  Then the eviction loop runs as after an insertion. If the new byte count is within the
  budget, or there is no budget, \<^verbatim>\<open>Add\<close> returns that state. So \<^verbatim>\<open>Add(k, v1)\<close> and
  \<^verbatim>\<open>Add(k, v2)\<close> on a new cache leave one entry and a byte count of the key length plus
  \<^verbatim>\<open>v2.Len()\<close>, provided each of the two entries fits the budget.
\<close>

theorem C7_Add_present_amended:
  "(reachable c \<and> cache c k = Some e \<longrightarrow>
      key (elems c e) = k \<and>
      elems (Add_entry c k v) = (elems c)(e := \<lparr>key = k, val = v\<rparr>) \<and>
      nbytes (Add_entry c k v) = nbytes c + (Len v - Len (val (elems c e))) \<and>
      order_keys (Add_entry c k v) = touch k (order_keys c) \<and>
      Cache_Len (Add_entry c k v) = Cache_Len c \<and>
      cache (Add_entry c k v) = cache c \<and>
      (\<not> (maxBytes c \<noteq> 0 \<and> maxBytes c <s nbytes c + (Len v - Len (val (elems c e)))) \<longrightarrow>
         Add c k v = Some (Add_entry c k v))) \<and>
   (\<not> (mb \<noteq> 0 \<and> mb <s of_nat (length k) + Len v1) \<and>
    \<not> (mb \<noteq> 0 \<and> mb <s of_nat (length k) + Len v2) \<longrightarrow>
      (\<exists>c1 c2. Add (New mb onEvicted w) k v1 = Some c1 \<and> Add c1 k v2 = Some c2 \<and>
         Cache_Len c2 = 1 \<and> order_keys c2 = [k] \<and>
         nbytes c2 = of_nat (length k) + Len v2 \<and> world c2 = w))"
proof (intro conjI impI)
  assume a: "reachable c \<and> cache c k = Some e"
  then have inv: "cache_inv c" and s: "cache c k = Some e" by (simp_all add: reachable_inv)
  from inv s have e: "e \<in> set (ll c)" and k: "key (elems c e) = k"
    by (simp_all add: cache_inv_lookup)
  show "key (elems c e) = k" by (rule k)
  from k have "(elems c e)\<lparr>val := v\<rparr> = \<lparr>key = k, val = v\<rparr>"
    by (cases "elems c e") simp
  then show "elems (Add_entry c k v) = (elems c)(e := \<lparr>key = k, val = v\<rparr>)"
    unfolding Add_entry_update [OF s] by simp
  show n: "nbytes (Add_entry c k v) = nbytes c + (Len v - Len (val (elems c e)))"
    unfolding Add_entry_update [OF s] by simp
  show "order_keys (Add_entry c k v) = touch k (order_keys c)"
    using inv by (rule order_keys_Add_entry)
  from e have "ll c \<noteq> []" by auto
  then have "0 < length (ll c)" by simp
  then show "Cache_Len (Add_entry c k v) = Cache_Len c"
    unfolding Add_entry_update [OF s] Cache_Len_def using e
    by (simp add: MoveToFront_in length_remove1)
  show "cache (Add_entry c k v) = cache c"
    unfolding Add_entry_update [OF s] by simp
  assume "\<not> (maxBytes c \<noteq> 0 \<and> maxBytes c <s nbytes c + (Len v - Len (val (elems c e))))"
  then show "Add c k v = Some (Add_entry c k v)"
    unfolding n [symmetric] by (rule Add_within_budget)
next
  assume "\<not> (mb \<noteq> 0 \<and> mb <s of_nat (length k) + Len v1) \<and>
    \<not> (mb \<noteq> 0 \<and> mb <s of_nat (length k) + Len v2)"
  then show "\<exists>c1 c2. Add (New mb onEvicted w) k v1 = Some c1 \<and> Add c1 k v2 = Some c2 \<and>
         Cache_Len c2 = 1 \<and> order_keys c2 = [k] \<and>
         nbytes c2 = of_nat (length k) + Len v2 \<and> world c2 = w"
    using Add_twice [of mb k v1 v2 onEvicted w] by blast
qed

theorem C7_Add_present_amended_witness:
  "reachable cache_ab \<and> cache cache_ab ''a'' = Some 1 \<and>
   \<not> (maxBytes cache_ab \<noteq> 0 \<and>
      maxBytes cache_ab <s nbytes cache_ab + (Len (Value ''x2'' 3) - Len (val (elems cache_ab 1)))) \<and>
   Add cache_ab ''a'' (Value ''x2'' 3) = Some (Add_entry cache_ab ''a'' (Value ''x2'' 3)) \<and>
   Cache_Len (Add_entry cache_ab ''a'' (Value ''x2'' 3)) = 2 \<and>
   nbytes (Add_entry cache_ab ''a'' (Value ''x2'' 3)) = 9 \<and>
   \<not> ((10 :: int64) \<noteq> 0 \<and> 10 <s of_nat (length ''k'') + Len (Value ''v1'' 4)) \<and>
   \<not> ((10 :: int64) \<noteq> 0 \<and> 10 <s of_nat (length ''k'') + Len (Value ''v2'' 7)) \<and>
   (\<exists>c1 c2. Add (New 10 None ()) ''k'' (Value ''v1'' 4) = Some c1 \<and>
      Add c1 ''k'' (Value ''v2'' 7) = Some c2 \<and> Cache_Len c2 = 1 \<and> nbytes c2 = 8)"
proof -
  have c: "cache cache_ab ''a'' = Some 1" by (simp add: cache_ab_def)
  have 1: "reachable cache_ab \<and> cache cache_ab ''a'' = Some 1"
    using reachable_cache_ab c ..
  have 2: "\<not> (maxBytes cache_ab \<noteq> 0 \<and>
      maxBytes cache_ab <s nbytes cache_ab + (Len (Value ''x2'' 3) - Len (val (elems cache_ab 1))))"
    by (simp add: cache_ab_def word_sless_alt)
  have v: "nbytes cache_ab + (Len (Value ''x2'' 3) - Len (val (elems cache_ab 1))) = 9"
    "Cache_Len cache_ab = 2"
    by (simp_all add: cache_ab_def Cache_Len_def)
  have 3: "\<not> ((10 :: int64) \<noteq> 0 \<and> 10 <s of_nat (length ''k'') + Len (Value ''v1'' 4)) \<and>
      \<not> ((10 :: int64) \<noteq> 0 \<and> 10 <s of_nat (length ''k'') + Len (Value ''v2'' 7))"
    by (simp add: word_sless_alt)
  note t1 = C7_Add_present_amended [of cache_ab "''a''" 1 "Value ''x2'' 3" 0 "Value [] 0"
      "Value [] 0" None "[]"]
  note t2 = C7_Add_present_amended [of "New 10 None ()" "''k''" 0 "Value [] 0" 10
      "Value ''v1'' 4" "Value ''v2'' 7" None "()"]
  from t1 [THEN conjunct1, rule_format, OF 1]
  have a: "nbytes (Add_entry cache_ab ''a'' (Value ''x2'' 3))
       = nbytes cache_ab + (Len (Value ''x2'' 3) - Len (val (elems cache_ab 1)))"
    "Cache_Len (Add_entry cache_ab ''a'' (Value ''x2'' 3)) = Cache_Len cache_ab"
    "\<not> (maxBytes cache_ab \<noteq> 0 \<and>
      maxBytes cache_ab <s nbytes cache_ab + (Len (Value ''x2'' 3) - Len (val (elems cache_ab 1)))) \<longrightarrow>
     Add cache_ab ''a'' (Value ''x2'' 3) = Some (Add_entry cache_ab ''a'' (Value ''x2'' 3))"
    by simp_all
  from a(3) 2 have a3: "Add cache_ab ''a'' (Value ''x2'' 3) = Some (Add_entry cache_ab ''a'' (Value ''x2'' 3))"
    by (rule mp)
  from t2 [THEN conjunct2, rule_format, OF 3]
  obtain c1 c2 :: "unit Cache" where b: "Add (New 10 None ()) ''k'' (Value ''v1'' 4) = Some c1"
    "Add c1 ''k'' (Value ''v2'' 7) = Some c2" "Cache_Len c2 = 1"
    "nbytes c2 = of_nat (length ''k'') + Len (Value ''v2'' 7)"
    by blast
  from b(4) have "nbytes c2 = 8" by simp
  with b(1,2,3) have 4: "\<exists>c1 c2. Add (New 10 None ()) ''k'' (Value ''v1'' 4) = Some c1 \<and>
      Add c1 ''k'' (Value ''v2'' 7) = Some c2 \<and> Cache_Len c2 = 1 \<and> nbytes c2 = 8"
    by blast
  from a(1) v(1) have n: "nbytes (Add_entry cache_ab ''a'' (Value ''x2'' 3)) = 9" by (rule trans)
  from a(2) v(2) have l: "Cache_Len (Add_entry cache_ab ''a'' (Value ''x2'' 3)) = 2" by (rule trans)
  show ?thesis
    by (intro conjI) (rule reachable_cache_ab c 2 a3 l n 3 [THEN conjunct1] 3 [THEN conjunct2] 4)+
qed

text \<open>
  The claim as it is written fails when the new value does not fit. The cache \<open>cache_k\<close>
  has a budget of 5 bytes and the key \<open>k\<close> with a value of 1 byte. \<^verbatim>\<open>Add("k", v2)\<close> with 10
  bytes returns and leaves no entry: the number of entries went from 1 to 0.
\<close>

theorem C7_counterexample:
  "Add (New 5 None ()) ''k'' (Value ''v1'' 1) = Some cache_k \<and>
   cache cache_k ''k'' = Some 1 \<and> Cache_Len cache_k = 1 \<and>
   Add cache_k ''k'' (Value ''v2'' 10) \<noteq> None \<and>
   Cache_Len (the (Add cache_k ''k'' (Value ''v2'' 10))) = 0"
proof -
  have "cache cache_k ''k'' = Some 1 \<and> Cache_Len cache_k = 1 \<and>
      Add cache_k ''k'' (Value ''v2'' 10) \<noteq> None \<and>
      Cache_Len (the (Add cache_k ''k'' (Value ''v2'' 10))) = 0"
    by (simp add: eval_simps cache_k_def)
  with Add_cache_k show ?thesis ..
qed

text \<open>
  Claim C8. When the key is in the index, \<^verbatim>\<open>Get\<close> returns the value stored under the key
  and \<^verbatim>\<open>ok = true\<close>, and moves the entry to the front of the recency order. The byte count,
  the number of entries, the set of resident keys, the entries themselves and the index
  stay as they are, and the callback is not called (the world outside is unchanged).
\<close>

theorem C8_Get_present:
  assumes "reachable c" and "cache c k = Some e"
  shows "Get c k = (c\<lparr>ll := e # remove1 e (ll c)\<rparr>, Some (val (elems c e)), True) \<and>
         key (elems c e) = k \<and> e \<in> set (ll c) \<and>
         order_keys (fst (Get c k)) = k # remove1 k (order_keys c) \<and>
         set (order_keys (fst (Get c k))) = set (order_keys c) \<and>
         nbytes (fst (Get c k)) = nbytes c \<and>
         Cache_Len (fst (Get c k)) = Cache_Len c \<and>
         elems (fst (Get c k)) = elems c \<and>
         cache (fst (Get c k)) = cache c \<and>
         world (fst (Get c k)) = world c"
proof -
  from assms(1) have inv: "cache_inv c" by (rule reachable_inv)
  from inv assms(2) have e: "e \<in> set (ll c)" and k: "key (elems c e) = k"
    by (simp_all add: cache_inv_lookup)
  have g: "Get c k = (c\<lparr>ll := e # remove1 e (ll c)\<rparr>, Some (val (elems c e)), True)"
    using assms(2) e by (simp add: Get_hit MoveToFront_in)
  have o: "order_keys (fst (Get c k)) = k # remove1 k (order_keys c)"
    using order_keys_MoveToFront [OF inv e] assms(2) k by (simp add: Get_hit)
  from inv have "distinct (order_keys c)" by (rule cache_inv_keys_distinct)
  moreover from e k have "k \<in> set (order_keys c)" by (auto simp: order_keys_def)
  ultimately have s: "set (k # remove1 k (order_keys c)) = set (order_keys c)" by auto
  from e have "ll c \<noteq> []" by auto
  then have "0 < length (ll c)" by simp
  then have l: "Cache_Len (fst (Get c k)) = Cache_Len c"
    unfolding g Cache_Len_def using e by (simp add: length_remove1)
  from g e k o s l show ?thesis by simp
qed

theorem C8_Get_present_witness:
  "reachable cache_ab \<and> cache cache_ab ''a'' = Some 1 \<and>
   Get cache_ab ''a'' = (cache_ab\<lparr>ll := [1, 2]\<rparr>, Some (Value ''x'' 4), True) \<and>
   order_keys (fst (Get cache_ab ''a'')) = [''a'', ''b'']"
proof -
  have h: "cache cache_ab ''a'' = Some 1" by (simp add: cache_ab_def)
  have l: "1 # remove1 1 (ll cache_ab) = [1, 2]" "val (elems cache_ab 1) = Value ''x'' 4"
    "''a'' # remove1 ''a'' (order_keys cache_ab) = [''a'', ''b'']"
    by (simp_all add: cache_ab_def order_keys_def)
  from C8_Get_present [OF reachable_cache_ab h]
  have "Get cache_ab ''a'' =
      (cache_ab\<lparr>ll := 1 # remove1 1 (ll cache_ab)\<rparr>, Some (val (elems cache_ab 1)), True)"
    and "order_keys (fst (Get cache_ab ''a'')) = ''a'' # remove1 ''a'' (order_keys cache_ab)"
    by blast+
  then have "Get cache_ab ''a'' = (cache_ab\<lparr>ll := [1, 2]\<rparr>, Some (Value ''x'' 4), True)"
    and "order_keys (fst (Get cache_ab ''a'')) = [''a'', ''b'']"
    unfolding l .
  with reachable_cache_ab h show ?thesis by blast
qed

text \<open>
  Claim C9. When the key is not in the index, \<^verbatim>\<open>Get\<close> returns nil and \<^verbatim>\<open>ok = false\<close>, and the
  cache after the call is the cache before it: the number of entries, the byte count, the
  recency order and the index are the same.
\<close>

theorem C9_Get_absent:
  assumes "cache c k = None"
  shows "Get c k = (c, None, False) \<and>
         Cache_Len (fst (Get c k)) = Cache_Len c \<and>
         nbytes (fst (Get c k)) = nbytes c \<and>
         ll (fst (Get c k)) = ll c \<and>
         cache (fst (Get c k)) = cache c"
  using assms by (simp add: Get_def)

theorem C9_Get_absent_witness:
  "cache (New 10 None ()) ''missing'' = None \<and>
   Get (New 10 None ()) ''missing'' = (New 10 None (), None, False)"
proof -
  have h: "cache (New 10 None ()) ''missing'' = None"
    by (simp add: New_def)
  from h C9_Get_absent [OF h] show ?thesis by simp
qed

text \<open>
  Claim C10. With \<^verbatim>\<open>maxBytes = 0\<close> every \<^verbatim>\<open>Add\<close> returns and evicts nothing, whatever the
  sizes: the callback is never called (the world outside stays as it was), every key
  that was added is resident, and when the \<open>N\<close> keys are distinct the cache has \<open>N\<close>
  entries, the last one added first.
\<close>

theorem C10_unbounded:
  "\<exists>c. Adds (New 0 onEvicted w) kvs = Some c \<and>
        world c = w \<and>
        set (order_keys c) = fst ` set kvs \<and>
        (distinct (map fst kvs) \<longrightarrow>
           Cache_Len c = length kvs \<and> order_keys c = rev (map fst kvs))"
proof -
  have "cache_inv (New 0 onEvicted w)" by (rule cache_inv_New)
  moreover have "maxBytes (New 0 onEvicted w) = 0" by (simp add: New_def)
  ultimately obtain c where c: "Adds (New 0 onEvicted w) kvs = Some c"
    "world c = world (New 0 onEvicted w)"
    "order_keys c = fold touch (map fst kvs) (order_keys (New 0 onEvicted w))"
    using Adds_unbounded by blast
  have e: "order_keys (New 0 onEvicted w) = []" "world (New 0 onEvicted w) = w"
    by (simp_all add: New_def order_keys_def)
  have s: "set (order_keys c) = fst ` set kvs"
    unfolding c(3) e by (simp add: set_fold_touch)
  have d: "Cache_Len c = length kvs \<and> order_keys c = rev (map fst kvs)"
    if "distinct (map fst kvs)"
  proof -
    from that have o: "order_keys c = rev (map fst kvs)"
      unfolding c(3) e by (simp add: fold_touch_new)
    have "Cache_Len c = length (order_keys c)" by (simp add: Cache_Len_def order_keys_def)
    with o show ?thesis by simp
  qed
  from c(2) e(2) have "world c = w" by simp
  with c(1) s d show ?thesis by blast
qed

theorem C10_unbounded_witness:
  "distinct (map fst [(''a'', Value ''x'' 1000), (''b'', Value ''y'' 2000)]) \<and>
   (\<exists>c. Adds (New 0 (Some log_eviction) []) [(''a'', Value ''x'' 1000), (''b'', Value ''y'' 2000)] = Some c \<and>
        world c = [] \<and> Cache_Len c = 2 \<and> order_keys c = [''b'', ''a''])"
proof -
  define kvs where "kvs = [(''a'', Value ''x'' 1000), (''b'', Value ''y'' 2000)]"
  have d: "distinct (map fst kvs)" by (simp add: kvs_def)
  from C10_unbounded [of "Some log_eviction" "[]" kvs] d
  obtain c where "Adds (New 0 (Some log_eviction) []) kvs = Some c" "world c = []"
    "Cache_Len c = length kvs" "order_keys c = rev (map fst kvs)"
    by blast
  then have "Adds (New 0 (Some log_eviction) []) kvs = Some c \<and>
        world c = [] \<and> Cache_Len c = 2 \<and> order_keys c = [''b'', ''a'']"
    by (simp add: kvs_def)
  then have "\<exists>c. Adds (New 0 (Some log_eviction) []) kvs = Some c \<and>
        world c = [] \<and> Cache_Len c = 2 \<and> order_keys c = [''b'', ''a'']" ..
  with d show ?thesis unfolding kvs_def by blast
qed

end
